theory Spec2Isabelle
  imports Main "HOL-Library.Word" "HOL-Library.List_Lexorder" "HOL-Library.Multiset"
    "HOL-Library.AList" "HOL-Library.Signed_Division"
begin

section \<open>The TSM file format: index, writer and reader\<close>

text \<open>
  A shallow embedding of the tsm1 data file code (index entries, the direct and the
  indirect index, the writer and the reader). Go slices are lists, a Go \<open>string\<close> used
  as a series key is the list of its bytes (Go compares strings bytewise, which is the
  lexicographic order on lists of unsigned bytes), \<open>int64\<close> and \<open>uint32\<close> are words, a
  \<open>time.Time\<close> is the instant it denotes, counted in nanoseconds since the Unix epoch.
  A Go panic and a returned \<open>error\<close> are both results on the left of a sum.
\<close>

subsection \<open>Bytes, errors and slices\<close>

type_synonym byte = "8 word"
type_synonym key = "byte list"
type_synonym Time = int

datatype error =
    Panic string
  | Err string
  | BadMagic
  | UnsupportedVersion
  | ChecksumMismatch
  | EmptyBlock
  | WriterClosed

text \<open>
  \<open>Panic\<close> is a Go run-time panic, \<open>Err\<close> an error value the code returns (the text
  is the prefix of the message). The other five constructors are the error kinds that
  the specification names for the writer and the reader.
\<close>

definition bindE :: "error + 'a \<Rightarrow> ('a \<Rightarrow> error + 'b) \<Rightarrow> error + 'b" where
  "bindE m f = (case m of Inl e \<Rightarrow> Inl e | Inr x \<Rightarrow> f x)"

text \<open>The slice expression \<open>b[lo:hi]\<close>; the capacity of a slice is taken to be its length.\<close>

definition subslice :: "'a list \<Rightarrow> int \<Rightarrow> int \<Rightarrow> error + 'a list" where
  "subslice b lo hi =
     (if 0 \<le> lo \<and> lo \<le> hi \<and> hi \<le> int (length b)
      then Inr (take (nat (hi - lo)) (drop (nat lo) b))
      else Inl (Panic ''slice bounds out of range''))"

text \<open>The slice expression \<open>b[lo:]\<close>.\<close>

definition subslice_from :: "'a list \<Rightarrow> int \<Rightarrow> error + 'a list" where
  "subslice_from b lo =
     (if 0 \<le> lo \<and> lo \<le> int (length b) then Inr (drop (nat lo) b)
      else Inl (Panic ''slice bounds out of range''))"

subsection \<open>Big-endian integers\<close>

fun be_encode :: "nat \<Rightarrow> nat \<Rightarrow> byte list" where
  "be_encode 0 x = []"
| "be_encode (Suc n) x = be_encode n (x div 256) @ [of_nat (x mod 256)]"

definition be_decode :: "byte list \<Rightarrow> nat" where
  "be_decode bs = foldl (\<lambda>a b. a * 256 + unat b) 0 bs"

text \<open>\<open>u16tob\<close> and \<open>btou16\<close> wrap \<open>binary.BigEndian\<close>; reading needs two bytes.\<close>

definition u16tob :: "16 word \<Rightarrow> byte list" where
  "u16tob v = be_encode 2 (unat v)"

definition btou16 :: "byte list \<Rightarrow> error + 16 word" where
  "btou16 b =
     (if length b < 2 then Inl (Panic ''index out of range'')
      else Inr (of_nat (be_decode (take 2 b))))"

text \<open>
  Modelled from the spec: \<open>u32tob\<close>, a helper of the package that the sources here
  call but do not define. The specification has it among the byte primitives, the
  big-endian fixed-width integer pack and unpack, as \<open>u16tob\<close> is.
\<close>

definition u32tob :: "32 word \<Rightarrow> byte list" where
  "u32tob v = be_encode 4 (unat v)"

text \<open>
  Modelled from the spec: \<open>btou32\<close>, the big-endian unpack of four bytes, missing
  from the sources in the same way; it reads as \<open>btou16\<close> does.
\<close>

definition btou32 :: "byte list \<Rightarrow> error + 32 word" where
  "btou32 b =
     (if length b < 4 then Inl (Panic ''index out of range'')
      else Inr (of_nat (be_decode (take 4 b))))"

text \<open>
  Modelled from the spec: \<open>u64tob\<close>, the big-endian pack of eight bytes, missing from
  the sources in the same way.
\<close>

definition u64tob :: "64 word \<Rightarrow> byte list" where
  "u64tob v = be_encode 8 (unat v)"

text \<open>
  Modelled from the spec: \<open>btou64\<close>, the big-endian unpack of eight bytes, missing
  from the sources in the same way.
\<close>

definition btou64 :: "byte list \<Rightarrow> error + 64 word" where
  "btou64 b =
     (if length b < 8 then Inl (Panic ''index out of range'')
      else Inr (of_nat (be_decode (take 8 b))))"

subsection \<open>Times\<close>

text \<open>
  \<open>t.UnixNano()\<close> is the instant as an \<open>int64\<close> (it wraps outside the range of
  \<open>int64\<close> nanoseconds); \<open>time.Unix(0, n)\<close> is the instant of an \<open>int64\<close>.
\<close>

definition UnixNano :: "Time \<Rightarrow> 64 word" where
  "UnixNano t = word_of_int t"

definition time_Unix :: "64 word \<Rightarrow> Time" where
  "time_Unix n = sint n"

subsection \<open>IndexEntry\<close>

record IndexEntry =
  MinTime :: Time
  MaxTime :: Time
  Offset :: "64 word"
  Size :: "32 word"

definition indexEntrySize :: nat where
  "indexEntrySize = 28"

definition IndexEntry_UnmarshalBinary :: "byte list \<Rightarrow> error + IndexEntry" where
  "IndexEntry_UnmarshalBinary b =
     (if length b \<noteq> indexEntrySize then Inl (Err ''unmarshalBinary: short buf'')
      else
        bindE (bindE (subslice b 0 8) btou64) (\<lambda>mn.
        bindE (bindE (subslice b 8 16) btou64) (\<lambda>mx.
        bindE (bindE (subslice b 16 24) btou64) (\<lambda>ofs.
        bindE (bindE (subslice b 24 28) btou32) (\<lambda>sz.
          Inr \<lparr>MinTime = time_Unix mn, MaxTime = time_Unix mx, Offset = ofs, Size = sz\<rparr>)))))"

text \<open>
  \<open>Contains\<close>: in Go \<open>&&\<close> binds tighter than \<open>||\<close>, so the body
  \<open>Min.Equal(t) || Min.Before(t) && Max.Equal(t) || Max.After(t)\<close> is a disjunction
  of three terms.
\<close>

definition Contains :: "IndexEntry \<Rightarrow> Time \<Rightarrow> bool" where
  "Contains e t \<longleftrightarrow> MinTime e = t \<or> (MinTime e < t \<and> MaxTime e = t) \<or> MaxTime e > t"

subsection \<open>The direct index\<close>

text \<open>
  \<open>directIndex.blocks\<close> is a Go map from keys to entry slices. It is an association
  list read with \<open>map_of\<close>; a missing key reads as the nil slice.
\<close>

type_synonym indexEntries = "IndexEntry list"
type_synonym directIndex = "(key \<times> indexEntries) list"

definition NewDirectIndex :: directIndex where
  "NewDirectIndex = []"

definition Entries :: "directIndex \<Rightarrow> key \<Rightarrow> indexEntries" where
  "Entries d k = (case map_of d k of None \<Rightarrow> [] | Some es \<Rightarrow> es)"

definition Add :: "directIndex \<Rightarrow> key \<Rightarrow> Time \<Rightarrow> Time \<Rightarrow> 64 word \<Rightarrow> 32 word \<Rightarrow> directIndex" where
  "Add d k minTime maxTime offset sz =
     AList.update k
       (Entries d k @ [\<lparr>MinTime = minTime, MaxTime = maxTime, Offset = offset, Size = sz\<rparr>]) d"

definition Entry :: "directIndex \<Rightarrow> key \<Rightarrow> Time \<Rightarrow> IndexEntry option" where
  "Entry d k t = find (\<lambda>e. Contains e t) (Entries d k)"

definition addEntries :: "directIndex \<Rightarrow> key \<Rightarrow> indexEntries \<Rightarrow> directIndex" where
  "addEntries d k entries = AList.update k (Entries d k @ entries) d"

text \<open>
  \<open>sort.Sort(entries)\<close> with \<open>indexEntries.Less\<close>, which compares
  \<open>MinTime.UnixNano()\<close> as \<open>int64\<close>. The sorting routine belongs to the Go library and
  is documented as not guaranteed to be stable, so it is a parameter \<open>srt\<close> of the
  model, and \<open>go_sort\<close> is what its documentation promises: the slice is permuted in
  place into ascending order of \<open>Less\<close>. The routine that the library has is
  \<open>sort_Sort\<close>, further down.
\<close>

definition Less_key :: "IndexEntry \<Rightarrow> int" where
  "Less_key e = sint (UnixNano (MinTime e))"

definition go_sort :: "(indexEntries \<Rightarrow> indexEntries) \<Rightarrow> bool" where
  "go_sort srt \<longleftrightarrow> (\<forall>xs. mset (srt xs) = mset xs \<and> sorted (map Less_key (srt xs)))"

text \<open>The bytes that the inner loop of \<open>MarshalBinary\<close> appends for one entry.\<close>

definition marshalEntry :: "IndexEntry \<Rightarrow> byte list" where
  "marshalEntry e =
     u64tob (UnixNano (MinTime e)) @ u64tob (UnixNano (MaxTime e)) @
     u64tob (Offset e) @ u32tob (Size e)"

text \<open>
  The loop of \<open>MarshalBinary\<close> over the sorted keys. \<open>entries\<close> shares its array with
  \<open>d.blocks[key]\<close>, so sorting it sorts the list held by the index: the index is
  returned along with the bytes.
\<close>

fun marshalKeys ::
  "(indexEntries \<Rightarrow> indexEntries) \<Rightarrow> key list \<Rightarrow> directIndex \<Rightarrow> byte list \<Rightarrow> byte list \<times> directIndex"
where
  "marshalKeys srt [] d b = (b, d)"
| "marshalKeys srt (k # keys) d b =
     (let entries = srt (Entries d k);
          d' = AList.update k entries d;
          b1 = b @ u16tob (of_nat (length k)) @ k;
          b2 = b1 @ u16tob (of_nat (length entries));
          b3 = foldl (\<lambda>acc e. acc @ marshalEntry e) b2 entries
      in marshalKeys srt keys d' b3)"

definition map_keys :: "directIndex \<Rightarrow> key list" where
  "map_keys d = remdups (map fst d)"

definition MarshalBinary ::
  "(indexEntries \<Rightarrow> indexEntries) \<Rightarrow> directIndex \<Rightarrow> byte list \<times> directIndex" where
  "MarshalBinary srt d = marshalKeys srt (sort (map_keys d)) d []"

definition wrapErr :: "string \<Rightarrow> error + 'a \<Rightarrow> error + 'a" where
  "wrapErr msg r = (case r of Inl (Err _) \<Rightarrow> Inl (Err msg) | _ \<Rightarrow> r)"

definition readKey :: "byte list \<Rightarrow> error + (nat \<times> key)" where
  "readKey b =
     bindE (bindE (subslice b 0 2) btou16) (\<lambda>sz.
     bindE (subslice b 2 (2 + int (unat sz))) (\<lambda>k.
       Inr (2 + length k, k)))"

fun readEntries_loop :: "byte list \<Rightarrow> nat \<Rightarrow> nat \<Rightarrow> error + indexEntries" where
  "readEntries_loop b i 0 = Inr []"
| "readEntries_loop b i (Suc c) =
     bindE (subslice b (int (i * indexEntrySize + 2)) (int (i * indexEntrySize + 2 + indexEntrySize)))
       (\<lambda>s.
     bindE (wrapErr ''readEntries: unmarshal error'' (IndexEntry_UnmarshalBinary s)) (\<lambda>ie.
     bindE (readEntries_loop b (Suc i) c) (\<lambda>es.
       Inr (ie # es))))"

definition readEntries :: "byte list \<Rightarrow> error + (nat \<times> indexEntries)" where
  "readEntries b =
     bindE (bindE (subslice b 0 2) btou16) (\<lambda>cnt.
     bindE (readEntries_loop b 0 (unat cnt)) (\<lambda>entries.
       Inr (2 + indexEntrySize * length entries, entries)))"

function unmarshalFrom :: "directIndex \<Rightarrow> byte list \<Rightarrow> nat \<Rightarrow> error + directIndex" where
  "unmarshalFrom d b pos =
     (if pos < length b then
        (case wrapErr ''readIndex: read key error''
                (bindE (subslice_from b (int pos)) readKey) of
           Inl e \<Rightarrow> Inl e
         | Inr (n, k) \<Rightarrow>
             (case wrapErr ''readIndex: read entries error''
                     (bindE (subslice_from b (int (pos + n))) readEntries) of
                Inl e \<Rightarrow> Inl e
              | Inr (m, entries) \<Rightarrow> unmarshalFrom (addEntries d k entries) b (pos + n + m)))
      else Inr d)"
  by pat_completeness auto
termination
proof (relation "measure (\<lambda>(d, b, pos). length b - pos)")
  show "wf (measure (\<lambda>(d, b, pos). length b - pos))" by simp
next
  fix d :: directIndex and b :: "byte list" and pos :: nat and x2 x y k x2a xa ya
  assume lt: "pos < length b"
    and rk: "wrapErr ''readIndex: read key error'' (bindE (subslice_from b (int pos)) readKey) = Inr x2"
    and x2: "(x, k) = x2"
  from rk x2 have "0 < x"
    by (auto simp: wrapErr_def bindE_def readKey_def split: sum.splits error.splits)
  with lt show "((addEntries d k ya, b, pos + x + xa), d, b, pos) \<in> measure (\<lambda>(d, b, pos). length b - pos)"
    by simp
qed

declare unmarshalFrom.simps [simp del]

definition directIndex_UnmarshalBinary :: "directIndex \<Rightarrow> byte list \<Rightarrow> error + directIndex" where
  "directIndex_UnmarshalBinary d b = unmarshalFrom d b 0"

subsection \<open>The sorting routine of the Go library\<close>

text \<open>
  \<open>sort.Sort\<close> is code of the Go library, not of this repository. Where a statement
  needs the routine itself and not only \<open>go_sort\<close>, it is the one below: the
  pattern-defeating quicksort that package \<open>sort\<close> has had since Go 1.19, function
  by function, run on the three methods of \<open>indexEntries\<close>. Indices are Go \<open>int\<close>s,
  and \<open>/\<close> on them is the truncating division \<open>sdiv\<close>. Element \<open>i\<close> of a slice \<open>a\<close>
  is \<open>a ! nat i\<close>; Go panics when \<open>i\<close> is outside the slice. Each \<open>for\<close> loop is a
  recursive function named after the function that holds it.
\<close>

unbundle bit_operations_syntax

text \<open>The methods \<open>Len\<close>, \<open>Swap\<close> and \<open>Less\<close> of \<open>indexEntries\<close>.\<close>

definition Len :: "indexEntries \<Rightarrow> int" where
  "Len a = int (length a)"

definition Swap :: "indexEntries \<Rightarrow> int \<Rightarrow> int \<Rightarrow> indexEntries" where
  "Swap a i j = a[nat i := a ! nat j, nat j := a ! nat i]"

definition Less :: "indexEntries \<Rightarrow> int \<Rightarrow> int \<Rightarrow> bool" where
  "Less a i j \<longleftrightarrow> Less_key (a ! nat i) < Less_key (a ! nat j)"

text \<open>
  \<open>insertionSort\<close> sorts \<open>data[a:b]\<close>: the inner loop moves element \<open>j\<close> down while
  it is less than its left neighbour, the outer loop does so for every \<open>i\<close> from
  \<open>a + 1\<close> on.
\<close>

function insertionSort_inner :: "indexEntries \<Rightarrow> int \<Rightarrow> int \<Rightarrow> indexEntries" where
  "insertionSort_inner data a j =
     (if j > a \<and> Less data j (j - 1)
      then insertionSort_inner (Swap data j (j - 1)) a (j - 1)
      else data)"
  by pat_completeness auto
termination
  by (relation "measure (\<lambda>(data, a, j). nat (j - a))") auto

declare insertionSort_inner.simps [simp del]

function insertionSort_outer :: "indexEntries \<Rightarrow> int \<Rightarrow> int \<Rightarrow> int \<Rightarrow> indexEntries" where
  "insertionSort_outer data a b i =
     (if i < b then insertionSort_outer (insertionSort_inner data a i) a b (i + 1) else data)"
  by pat_completeness auto
termination
  by (relation "measure (\<lambda>(data, a, b, i). nat (b - i))") auto

declare insertionSort_outer.simps [simp del]

definition insertionSort :: "indexEntries \<Rightarrow> int \<Rightarrow> int \<Rightarrow> indexEntries" where
  "insertionSort data a b = insertionSort_outer data a b (a + 1)"

text \<open>
  \<open>siftDown\<close> and \<open>heapSort\<close>, to which the quicksort falls back when \<open>limit\<close> has
  run out.
\<close>

function siftDown_loop :: "indexEntries \<Rightarrow> int \<Rightarrow> int \<Rightarrow> int \<Rightarrow> indexEntries" where
  "siftDown_loop data hi first root =
     (let child = 2 * root + 1 in
      if child \<ge> hi then data
      else
        let child = (if child + 1 < hi \<and> Less data (first + child) (first + child + 1)
                     then child + 1 else child) in
        if \<not> Less data (first + root) (first + child) then data
        else siftDown_loop (Swap data (first + root) (first + child)) hi first child)"
  by pat_completeness auto
termination
proof (relation "measure (\<lambda>(data, hi, first, root).
          if root \<ge> 0 then nat (hi - root)
          else if root = -1 then nat hi + 1 else nat (first + root))", goal_cases)
  case 1
  show ?case by simp
next
  case (2 data hi first root child child')
  from 2(4) have ne: "nat (first + root) \<noteq> nat (first + child')"
    by (auto simp: Less_def)
  from 2(1,3) have c: "child' = 2 * root + 1 \<or> child' = 2 * root + 2"
    by (auto split: if_splits)
  from 2(1,2,3) have h: "child' < hi"
    by (auto split: if_splits)
  show ?case using ne c h by auto
qed

declare siftDown_loop.simps [simp del]

definition siftDown :: "indexEntries \<Rightarrow> int \<Rightarrow> int \<Rightarrow> int \<Rightarrow> indexEntries" where
  "siftDown data lo hi first = siftDown_loop data hi first lo"

function heapSort_build :: "indexEntries \<Rightarrow> int \<Rightarrow> int \<Rightarrow> int \<Rightarrow> indexEntries" where
  "heapSort_build data hi first i =
     (if i \<ge> 0 then heapSort_build (siftDown data i hi first) hi first (i - 1) else data)"
  by pat_completeness auto
termination
  by (relation "measure (\<lambda>(data, hi, first, i). nat (i + 1))") auto

declare heapSort_build.simps [simp del]

function heapSort_pop :: "indexEntries \<Rightarrow> int \<Rightarrow> int \<Rightarrow> int \<Rightarrow> indexEntries" where
  "heapSort_pop data lo first i =
     (if i \<ge> 0
      then heapSort_pop (siftDown (Swap data first (first + i)) lo i first) lo first (i - 1)
      else data)"
  by pat_completeness auto
termination
  by (relation "measure (\<lambda>(data, lo, first, i). nat (i + 1))") auto

declare heapSort_pop.simps [simp del]

definition heapSort :: "indexEntries \<Rightarrow> int \<Rightarrow> int \<Rightarrow> indexEntries" where
  "heapSort data a b =
     (let first = a; lo = 0; hi = b - a;
          data = heapSort_build data hi first ((hi - 1) sdiv 2)
      in heapSort_pop data lo first (hi - 1))"

text \<open>
  What \<open>choosePivot\<close> reports about the order of the elements it compared, and the
  pseudo-random numbers of \<open>breakPatterns\<close>: \<open>xorshift_Next\<close> is the new state, which is
  also the number returned. \<open>bits_Len\<close> is \<open>bits.Len\<close>, the number of bits needed to
  write its argument.
\<close>

datatype sortedHint = unknownHint | increasingHint | decreasingHint

definition xorshift_Next :: "64 word \<Rightarrow> 64 word" where
  "xorshift_Next r =
     (let r = r XOR push_bit 13 r;
          r = r XOR drop_bit 7 r;
          r = r XOR push_bit 17 r
      in r)"

fun bits_Len_nat :: "nat \<Rightarrow> nat" where
  "bits_Len_nat n = (if n = 0 then 0 else Suc (bits_Len_nat (n div 2)))"

declare bits_Len_nat.simps [simp del]

definition bits_Len :: "64 word \<Rightarrow> int" where
  "bits_Len x = int (bits_Len_nat (unat x))"

definition nextPowerOfTwo :: "int \<Rightarrow> 64 word" where
  "nextPowerOfTwo len =
     (let shift = (word_of_int (bits_Len (word_of_int len)) :: 64 word)
      in push_bit (unat shift) 1)"

function breakPatterns_loop ::
  "indexEntries \<Rightarrow> int \<Rightarrow> int \<Rightarrow> 64 word \<Rightarrow> 64 word \<Rightarrow> int \<Rightarrow> int \<Rightarrow> indexEntries"
where
  "breakPatterns_loop data a len random modulus idx i =
     (if i < 3 then
        (let random = xorshift_Next random;
             other = sint (random AND (modulus - 1));
             other = (if other \<ge> len then other - len else other)
         in breakPatterns_loop (Swap data (idx - 1 + i) (a + other)) a len random modulus idx
              (i + 1))
      else data)"
  by pat_completeness auto
termination
  by (relation "measure (\<lambda>(data, a, len, random, modulus, idx, i). nat (3 - i))") auto

declare breakPatterns_loop.simps [simp del]

definition breakPatterns :: "indexEntries \<Rightarrow> int \<Rightarrow> int \<Rightarrow> indexEntries" where
  "breakPatterns data a b =
     (let len = b - a in
      if len \<ge> 8 then
        (let random = word_of_int len;
             modulus = nextPowerOfTwo len;
             idx = a + (len sdiv 4) * 2 - 1
         in breakPatterns_loop data a len random modulus idx 0)
      else data)"

text \<open>
  \<open>choosePivot\<close> compares up to nine elements and moves none. The counter that the
  source passes by pointer is passed in and returned.
\<close>

definition order2 :: "indexEntries \<Rightarrow> int \<Rightarrow> int \<Rightarrow> int \<Rightarrow> int \<times> int \<times> int" where
  "order2 data a b swaps = (if Less data b a then (b, a, swaps + 1) else (a, b, swaps))"

definition median :: "indexEntries \<Rightarrow> int \<Rightarrow> int \<Rightarrow> int \<Rightarrow> int \<Rightarrow> int \<times> int" where
  "median data a b c swaps =
     (let (a, b, swaps) = order2 data a b swaps;
          (b, c, swaps) = order2 data b c swaps;
          (a, b, swaps) = order2 data a b swaps
      in (b, swaps))"

definition medianAdjacent :: "indexEntries \<Rightarrow> int \<Rightarrow> int \<Rightarrow> int \<times> int" where
  "medianAdjacent data a swaps = median data (a - 1) a (a + 1) swaps"

definition shortestNinther :: int where
  "shortestNinther = 50"

definition maxSwaps :: int where
  "maxSwaps = 4 * 3"

definition choosePivot :: "indexEntries \<Rightarrow> int \<Rightarrow> int \<Rightarrow> int \<times> sortedHint" where
  "choosePivot data a b =
     (let l = b - a;
          swaps = 0;
          i = a + l sdiv 4 * 1;
          j = a + l sdiv 4 * 2;
          k = a + l sdiv 4 * 3;
          (j, swaps) =
            (if l \<ge> 8 then
               (let (i, j, k, swaps) =
                      (if l \<ge> shortestNinther then
                         (let (i, swaps) = medianAdjacent data i swaps;
                              (j, swaps) = medianAdjacent data j swaps;
                              (k, swaps) = medianAdjacent data k swaps
                          in (i, j, k, swaps))
                       else (i, j, k, swaps))
                in median data i j k swaps)
             else (j, swaps))
      in if swaps = 0 then (j, increasingHint)
         else if swaps = maxSwaps then (j, decreasingHint)
         else (j, unknownHint))"

function reverseRange_loop :: "indexEntries \<Rightarrow> int \<Rightarrow> int \<Rightarrow> indexEntries" where
  "reverseRange_loop data i j =
     (if i < j then reverseRange_loop (Swap data i j) (i + 1) (j - 1) else data)"
  by pat_completeness auto
termination
  by (relation "measure (\<lambda>(data, i, j). nat (j - i))") auto

declare reverseRange_loop.simps [simp del]

definition reverseRange :: "indexEntries \<Rightarrow> int \<Rightarrow> int \<Rightarrow> indexEntries" where
  "reverseRange data a b = reverseRange_loop data a (b - 1)"

text \<open>
  \<open>partialInsertionSort\<close> returns whether the slice is sorted at the end, together with
  the slice.
\<close>

definition maxSteps :: nat where
  "maxSteps = 5"

definition shortestShifting :: int where
  "shortestShifting = 50"

function partialInsertionSort_scan :: "indexEntries \<Rightarrow> int \<Rightarrow> int \<Rightarrow> int" where
  "partialInsertionSort_scan data b i =
     (if i < b \<and> \<not> Less data i (i - 1) then partialInsertionSort_scan data b (i + 1) else i)"
  by pat_completeness auto
termination
  by (relation "measure (\<lambda>(data, b, i). nat (b - i))") auto

declare partialInsertionSort_scan.simps [simp del]

function partialInsertionSort_left :: "indexEntries \<Rightarrow> int \<Rightarrow> indexEntries" where
  "partialInsertionSort_left data j =
     (if j \<ge> 1 then
        (if \<not> Less data j (j - 1) then data
         else partialInsertionSort_left (Swap data j (j - 1)) (j - 1))
      else data)"
  by pat_completeness auto
termination
  by (relation "measure (\<lambda>(data, j). nat j)") auto

declare partialInsertionSort_left.simps [simp del]

function partialInsertionSort_right :: "indexEntries \<Rightarrow> int \<Rightarrow> int \<Rightarrow> indexEntries" where
  "partialInsertionSort_right data b j =
     (if j < b then
        (if \<not> Less data j (j - 1) then data
         else partialInsertionSort_right (Swap data j (j - 1)) b (j + 1))
      else data)"
  by pat_completeness auto
termination
  by (relation "measure (\<lambda>(data, b, j). nat (b - j))") auto

declare partialInsertionSort_right.simps [simp del]

primrec partialInsertionSort_steps ::
  "nat \<Rightarrow> indexEntries \<Rightarrow> int \<Rightarrow> int \<Rightarrow> int \<Rightarrow> bool \<times> indexEntries"
where
  "partialInsertionSort_steps 0 data a b i = (False, data)"
| "partialInsertionSort_steps (Suc n) data a b i =
     (let i = partialInsertionSort_scan data b i in
      if i = b then (True, data)
      else if b - a < shortestShifting then (False, data)
      else
        (let data = Swap data i (i - 1);
             data = (if i - a \<ge> 2 then partialInsertionSort_left data (i - 1) else data);
             data = (if b - i \<ge> 2 then partialInsertionSort_right data b (i + 1) else data)
         in partialInsertionSort_steps n data a b i))"

definition partialInsertionSort :: "indexEntries \<Rightarrow> int \<Rightarrow> int \<Rightarrow> bool \<times> indexEntries" where
  "partialInsertionSort data a b = partialInsertionSort_steps maxSteps data a b (a + 1)"

text \<open>
  \<open>partitionEqual\<close> and \<open>partition\<close> (here \<open>partition_sort\<close>). Each has a loop that
  holds two scanning loops; the scans move no element.
\<close>

function partitionEqual_up :: "indexEntries \<Rightarrow> int \<Rightarrow> int \<Rightarrow> int \<Rightarrow> int" where
  "partitionEqual_up data a i j =
     (if i \<le> j \<and> \<not> Less data a i then partitionEqual_up data a (i + 1) j else i)"
  by pat_completeness auto
termination
  by (relation "measure (\<lambda>(data, a, i, j). nat (j + 1 - i))") auto

declare partitionEqual_up.simps [simp del]

function partitionEqual_down :: "indexEntries \<Rightarrow> int \<Rightarrow> int \<Rightarrow> int \<Rightarrow> int" where
  "partitionEqual_down data a i j =
     (if i \<le> j \<and> Less data a j then partitionEqual_down data a i (j - 1) else j)"
  by pat_completeness auto
termination
  by (relation "measure (\<lambda>(data, a, i, j). nat (j + 1 - i))") auto

declare partitionEqual_down.simps [simp del]

function partitionEqual_loop ::
  "indexEntries \<Rightarrow> int \<Rightarrow> int \<Rightarrow> int \<Rightarrow> indexEntries \<times> int"
where
  "partitionEqual_loop data a i j =
     (let i = partitionEqual_up data a i j;
          j = partitionEqual_down data a i j
      in if i > j then (data, i)
         else partitionEqual_loop (Swap data i j) a (i + 1) (j - 1))"
  by pat_completeness auto
termination
proof (relation "measure (\<lambda>(data, a, i, j). nat (j + 1 - i))", goal_cases)
  case 1
  show ?case by simp
next
  case (2 data a i j i' j')
  have "i \<le> partitionEqual_up d a i j" for d
    by (induction d a i j rule: partitionEqual_up.induct)
      (subst partitionEqual_up.simps, auto)
  moreover have "partitionEqual_down d a i' j \<le> j" for d
    by (induction d a i' j rule: partitionEqual_down.induct)
      (subst partitionEqual_down.simps, auto)
  ultimately have "i \<le> i'" and "j' \<le> j"
    using 2(1,2) by auto
  with 2(3) show ?case by auto
qed

declare partitionEqual_loop.simps [simp del]

definition partitionEqual :: "indexEntries \<Rightarrow> int \<Rightarrow> int \<Rightarrow> int \<Rightarrow> indexEntries \<times> int" where
  "partitionEqual data a b pivot =
     (let data = Swap data a pivot in partitionEqual_loop data a (a + 1) (b - 1))"

function partition_up :: "indexEntries \<Rightarrow> int \<Rightarrow> int \<Rightarrow> int \<Rightarrow> int" where
  "partition_up data a i j =
     (if i \<le> j \<and> Less data i a then partition_up data a (i + 1) j else i)"
  by pat_completeness auto
termination
  by (relation "measure (\<lambda>(data, a, i, j). nat (j + 1 - i))") auto

declare partition_up.simps [simp del]

function partition_down :: "indexEntries \<Rightarrow> int \<Rightarrow> int \<Rightarrow> int \<Rightarrow> int" where
  "partition_down data a i j =
     (if i \<le> j \<and> \<not> Less data j a then partition_down data a i (j - 1) else j)"
  by pat_completeness auto
termination
  by (relation "measure (\<lambda>(data, a, i, j). nat (j + 1 - i))") auto

declare partition_down.simps [simp del]

function partition_loop ::
  "indexEntries \<Rightarrow> int \<Rightarrow> int \<Rightarrow> int \<Rightarrow> indexEntries \<times> int"
where
  "partition_loop data a i j =
     (let i = partition_up data a i j;
          j = partition_down data a i j
      in if i > j then (data, j)
         else partition_loop (Swap data i j) a (i + 1) (j - 1))"
  by pat_completeness auto
termination
proof (relation "measure (\<lambda>(data, a, i, j). nat (j + 1 - i))", goal_cases)
  case 1
  show ?case by simp
next
  case (2 data a i j i' j')
  have "i \<le> partition_up d a i j" for d
    by (induction d a i j rule: partition_up.induct)
      (subst partition_up.simps, auto)
  moreover have "partition_down d a i' j \<le> j" for d
    by (induction d a i' j rule: partition_down.induct)
      (subst partition_down.simps, auto)
  ultimately have "i \<le> i'" and "j' \<le> j"
    using 2(1,2) by auto
  with 2(3) show ?case by auto
qed

declare partition_loop.simps [simp del]

definition partition_sort ::
  "indexEntries \<Rightarrow> int \<Rightarrow> int \<Rightarrow> int \<Rightarrow> indexEntries \<times> int \<times> bool"
where
  "partition_sort data a b pivot =
     (let data = Swap data a pivot;
          i = a + 1;
          j = b - 1;
          i = partition_up data a i j;
          j = partition_down data a i j
      in if i > j then (Swap data j a, j, True)
         else
           (let data = Swap data i j;
                (data, j) = partition_loop data a (i + 1) (j - 1)
            in (Swap data j a, j, False)))"

text \<open>
  \<open>pdqsort\<close>. The loop carries \<open>wasBalanced\<close> and \<open>wasPartitioned\<close>, which start as
  true in every call of \<open>pdqsort\<close>, the recursive ones included. It ends because
  \<open>partition\<close> returns a position inside \<open>[a, b)\<close> and \<open>partitionEqual\<close> one above
  \<open>a\<close>.
\<close>

definition maxInsertion :: int where
  "maxInsertion = 12"

function pdqsort_loop ::
  "indexEntries \<Rightarrow> int \<Rightarrow> int \<Rightarrow> int \<Rightarrow> bool \<Rightarrow> bool \<Rightarrow> indexEntries"
where
  "pdqsort_loop data a b limit wasBalanced wasPartitioned =
     (let len = b - a in
      if len \<le> maxInsertion then insertionSort data a b
      else if limit = 0 then heapSort data a b
      else
        (let (data, limit) =
               (if \<not> wasBalanced then (breakPatterns data a b, limit - 1) else (data, limit));
             (pivot, hint) = choosePivot data a b;
             (data, pivot, hint) =
               (if hint = decreasingHint
                then (reverseRange data a b, (b - 1) - (pivot - a), increasingHint)
                else (data, pivot, hint));
             (fin, data) =
               (if wasBalanced \<and> wasPartitioned \<and> hint = increasingHint
                then partialInsertionSort data a b
                else (False, data))
         in if fin then data
            else if a > 0 \<and> \<not> Less data (a - 1) pivot then
              (let (data, mid) = partitionEqual data a b pivot
               in pdqsort_loop data mid b limit wasBalanced wasPartitioned)
            else
              (let (data, mid, alreadyPartitioned) = partition_sort data a b pivot;
                   wasPartitioned = alreadyPartitioned;
                   leftLen = mid - a;
                   rightLen = b - mid;
                   balanceThreshold = len sdiv 8
               in if leftLen < rightLen then
                    pdqsort_loop (pdqsort_loop data a mid limit True True) (mid + 1) b limit
                      (leftLen \<ge> balanceThreshold) wasPartitioned
                  else
                    pdqsort_loop (pdqsort_loop data (mid + 1) b limit True True) a mid limit
                      (rightLen \<ge> balanceThreshold) wasPartitioned)))"
  by pat_completeness auto
termination
proof -
  have up: "i \<le> partition_up d a i j" for d a i j
    by (induction d a i j rule: partition_up.induct)
      (subst partition_up.simps, auto)
  have down_le: "partition_down d a i j \<le> j" for d a i j
    by (induction d a i j rule: partition_down.induct)
      (subst partition_down.simps, auto)
  have down_ge: "min j (i - 1) \<le> partition_down d a i j" for d a i j
    by (induction d a i j rule: partition_down.induct)
      (subst partition_down.simps, auto)
  have loop: "a < i \<Longrightarrow> a \<le> j \<Longrightarrow>
      a \<le> snd (partition_loop d a i j) \<and> snd (partition_loop d a i j) \<le> j" for d a i j
  proof (induction d a i j rule: partition_loop.induct)
    case (1 d a i j)
    define i' where "i' = partition_up d a i j"
    define j' where "j' = partition_down d a i' j"
    have ge: "i \<le> i'"
      unfolding i'_def by (rule up)
    have le: "j' \<le> j"
      unfolding j'_def by (rule down_le)
    have lo: "min j (i' - 1) \<le> j'"
      unfolding j'_def by (rule down_ge)
    show ?case
    proof (cases "i' > j'")
      case True
      then show ?thesis
        using ge le lo 1(2,3)
        by (subst (1 2) partition_loop.simps) (simp add: Let_def i'_def j'_def)
    next
      case False
      then have "a \<le> snd (partition_loop (Swap d i' j') a (i' + 1) (j' - 1)) \<and>
          snd (partition_loop (Swap d i' j') a (i' + 1) (j' - 1)) \<le> j' - 1"
        using 1(1) [of i' j'] 1(2,3) ge by (simp add: i'_def j'_def)
      then show ?thesis
        using ge le False
        by (subst (1 2) partition_loop.simps) (simp add: Let_def i'_def j'_def)
    qed
  qed
  have mid: "a \<le> m \<and> m < b"
    if eq: "partition_sort d a b pivot = (d', m, ap)" and ab: "a < b"
    for d d' a b pivot m ap
  proof -
    define e where "e = Swap d a pivot"
    define i' where "i' = partition_up e a (a + 1) (b - 1)"
    define j' where "j' = partition_down e a i' (b - 1)"
    have ge: "a + 1 \<le> i'"
      unfolding i'_def by (rule up)
    have le: "j' \<le> b - 1"
      unfolding j'_def by (rule down_le)
    have lo: "min (b - 1) (i' - 1) \<le> j'"
      unfolding j'_def by (rule down_ge)
    show ?thesis
    proof (cases "i' > j'")
      case True
      then have "m = j'"
        using eq by (simp add: partition_sort_def Let_def e_def i'_def j'_def)
      then show ?thesis using ge le lo ab by simp
    next
      case False
      then have m: "m = snd (partition_loop (Swap e i' j') a (i' + 1) (j' - 1))"
        using eq
        by (simp add: partition_sort_def Let_def e_def i'_def j'_def split: prod.splits)
      have "a < i' + 1" and "a \<le> j' - 1"
        using ge False by simp_all
      from loop [OF this, of "Swap e i' j'"] show ?thesis
        using m le by simp
    qed
  qed
  have eq_up: "i \<le> partitionEqual_up d a i j" for d a i j
    by (induction d a i j rule: partitionEqual_up.induct)
      (subst partitionEqual_up.simps, auto)
  have eq_loop: "i \<le> snd (partitionEqual_loop d a i j)" for d a i j
  proof (induction d a i j rule: partitionEqual_loop.induct)
    case (1 d a i j)
    define i' where "i' = partitionEqual_up d a i j"
    define j' where "j' = partitionEqual_down d a i' j"
    have ge: "i \<le> i'"
      unfolding i'_def by (rule eq_up)
    show ?case
    proof (cases "i' > j'")
      case True
      then show ?thesis
        using ge by (subst partitionEqual_loop.simps) (simp add: Let_def i'_def j'_def)
    next
      case False
      then have "i' + 1 \<le> snd (partitionEqual_loop (Swap d i' j') a (i' + 1) (j' - 1))"
        using 1 [of i' j'] by (simp add: i'_def j'_def)
      then show ?thesis
        using ge False by (subst partitionEqual_loop.simps) (simp add: Let_def i'_def j'_def)
    qed
  qed
  have eq_mid: "a < snd (partitionEqual d a b pivot)" for d a b pivot
    using eq_loop [of "a + 1" "Swap d a pivot" a "b - 1"]
    by (simp add: partitionEqual_def)
  show ?thesis
  proof (relation "measure (\<lambda>(data, a, b, limit, wasBalanced, wasPartitioned). nat (b - a))",
      goal_cases)
    case 1
    show ?case by simp
  next
    case (2 data a b limit wasBalanced wasPartitioned x xa xb y xaa xab ya xac xad yaa xae yab xaf xag yac xc xd yad)
    have "yad = snd (partitionEqual yac a b xae)"
      using 2(15,16) by (metis snd_conv)
    then have "a < yad"
      by (simp add: eq_mid)
    moreover have "a < b"
      using 2(1,2) by (simp add: maxInsertion_def)
    ultimately show ?case by simp
  next
    case (3 data a b limit wasBalanced wasPartitioned x xa xb y xaa xab ya xac xad yaa xae yab xaf xag yac xah xai yad xaj yae xak xal xam xan)
    have "partition_sort yac a b xae = (xai, xaj, yae)"
      using 3(15,16,17) by simp
    moreover have "a < b"
      using 3(1,2) by (simp add: maxInsertion_def)
    ultimately have "a \<le> xaj \<and> xaj < b"
      by (rule mid)
    then show ?case by simp
  next
    case (4 data a b limit wasBalanced wasPartitioned x xa xb y xaa xab ya xac xad yaa xae yab xaf xag yac xah xai yad xaj yae xak xal xam xan)
    have "partition_sort yac a b xae = (xai, xaj, yae)"
      using 4(15,16,17) by simp
    moreover have "a < b"
      using 4(1,2) by (simp add: maxInsertion_def)
    ultimately have "a \<le> xaj \<and> xaj < b"
      by (rule mid)
    then show ?case by simp
  next
    case (5 data a b limit wasBalanced wasPartitioned x xa xb y xaa xab ya xac xad yaa xae yab xaf xag yac xah xai yad xaj yae xak xal xam xan)
    have "partition_sort yac a b xae = (xai, xaj, yae)"
      using 5(15,16,17) by simp
    moreover have "a < b"
      using 5(1,2) by (simp add: maxInsertion_def)
    ultimately have "a \<le> xaj \<and> xaj < b"
      by (rule mid)
    then show ?case by simp
  next
    case (6 data a b limit wasBalanced wasPartitioned x xa xb y xaa xab ya xac xad yaa xae yab xaf xag yac xah xai yad xaj yae xak xal xam xan)
    have "partition_sort yac a b xae = (xai, xaj, yae)"
      using 6(15,16,17) by simp
    moreover have "a < b"
      using 6(1,2) by (simp add: maxInsertion_def)
    ultimately have "a \<le> xaj \<and> xaj < b"
      by (rule mid)
    then show ?case by simp
  qed
qed

declare pdqsort_loop.simps [simp del]

definition pdqsort :: "indexEntries \<Rightarrow> int \<Rightarrow> int \<Rightarrow> int \<Rightarrow> indexEntries" where
  "pdqsort data a b limit = pdqsort_loop data a b limit True True"

text \<open>The entry point, \<open>sort.Sort(data)\<close>.\<close>

definition sort_Sort :: "indexEntries \<Rightarrow> indexEntries" where
  "sort_Sort data =
     (let n = Len data in
      if n \<le> 1 then data
      else (let limit = bits_Len (word_of_int n) in pdqsort data 0 n limit))"

subsection \<open>The indirect index\<close>

text \<open>
  \<open>offsets\<close> is a slice of \<open>int32\<close>, and the scan that builds it counts in \<open>int32\<close>:
  \<open>int32 x\<close> is the value an \<open>int32\<close> holds after a conversion or an arithmetic
  result \<open>x\<close>.
\<close>

definition int32 :: "int \<Rightarrow> int" where
  "int32 x = (x + 2147483648) mod 4294967296 - 2147483648"

record indirectIndex =
  idx_b :: "byte list"
  idx_offsets :: "int list"

definition NewIndirectIndex :: indirectIndex where
  "NewIndirectIndex = \<lparr>idx_b = [], idx_offsets = []\<rparr>"

function indirect_scan :: "byte list \<Rightarrow> int \<Rightarrow> int list \<Rightarrow> error + int list" where
  "indirect_scan b i offs =
     (if i < int32 (int (length b)) then
        (case bindE (subslice b i (int32 (i + 2))) btou16 of
           Inl e \<Rightarrow> Inl e
         | Inr keyLen \<Rightarrow>
             (let i2 = int32 (int32 (i + 2) + int (unat keyLen)) in
              case bindE (subslice b i2 (int32 (i2 + 2))) btou16 of
                Inl e \<Rightarrow> Inl e
              | Inr cnt \<Rightarrow>
                  indirect_scan b
                    (int32 (int32 (i2 + 2) + int32 (int (unat cnt) * int indexEntrySize)))
                    (offs @ [i])))
      else Inr offs)"
  by pat_completeness auto
termination
proof (relation "measure (\<lambda>(b, i, offs). if i < 0 then 0 else nat (2147483649 - i))")
  show "wf (measure (\<lambda>(b, i, offs). if i < 0 then 0 else nat (2147483649 - i)))" by simp
next
  fix b :: "byte list" and i :: int and offs :: "int list" and keyLen :: "16 word"
    and i2 :: int and cnt :: "16 word"
  assume s1: "bindE (subslice b i (int32 (i + 2))) btou16 = Inr keyLen"
    and i2: "i2 = int32 (int32 (i + 2) + int (unat keyLen))"
    and s2: "bindE (subslice b i2 (int32 (i2 + 2))) btou16 = Inr cnt"
  define kl where "kl = int (unat keyLen)"
  define cn where "cn = int (unat cnt)"
  have k: "kl < 65536" "0 \<le> kl"
    unfolding kl_def using uint_lt2p [of keyLen] by simp_all
  have c: "cn < 65536" "0 \<le> cn"
    unfolding cn_def using uint_lt2p [of cnt] by simp_all
  from s1 have a1: "0 \<le> i" "i \<le> int32 (i + 2)"
    by (auto simp: bindE_def subslice_def split: if_splits)
  from s2 have a2: "0 \<le> i2" "i2 \<le> int32 (i2 + 2)"
    by (auto simp: bindE_def subslice_def split: if_splits)
  define j where "j = int32 (int32 (i2 + 2) + int32 (cn * 28))"
  have r: "int32 x < 2147483648" for x
    by (simp add: int32_def)
  have lo: "int32 x = x" if "- 2147483648 \<le> x" "x < 2147483648" for x
    using that by (simp add: int32_def)
  have hi: "int32 x = x - 4294967296" if "2147483648 \<le> x" "x < 4294967296" for x
  proof -
    have "(x + 2147483648) mod 4294967296 = x - 2147483648"
      using that by (intro int_mod_pos_eq [where q = 1]) simp_all
    then show ?thesis by (simp add: int32_def)
  qed
  have i: "i < 2147483648" using a1(2) r [of "i + 2"] by linarith
  have e1: "int32 (i + 2) = i + 2"
  proof (cases "i + 2 < 2147483648")
    case True then show ?thesis using a1(1) by (simp add: lo)
  next
    case False
    then have "int32 (i + 2) = i + 2 - 4294967296" using i by (simp add: hi)
    with a1 i show ?thesis by linarith
  qed
  have i2lt: "i2 < 2147483648" using a2(2) r [of "i2 + 2"] by linarith
  have i2eq: "i2 = int32 (i + 2 + kl)" using i2 e1 by (simp add: kl_def)
  have e2: "i2 = i + 2 + kl"
  proof (cases "i + 2 + kl < 2147483648")
    case True then show ?thesis using a1(1) k(2) by (simp only: i2eq lo)
  next
    case False
    then have "int32 (i + 2 + kl) = i + 2 + kl - 4294967296"
      using i k(1) by (intro hi) linarith+
    with k(1) a2(1) i i2eq show ?thesis by linarith
  qed
  have e3: "int32 (i2 + 2) = i2 + 2"
  proof (cases "i2 + 2 < 2147483648")
    case True then show ?thesis using a2(1) by (simp add: lo)
  next
    case False
    then have "int32 (i2 + 2) = i2 + 2 - 4294967296" using i2lt by (simp add: hi)
    with a2 i2lt show ?thesis by linarith
  qed
  have e4: "int32 (cn * 28) = cn * 28"
    using c by (intro lo) linarith+
  have jeq: "j = int32 (i2 + 2 + cn * 28)"
    by (simp only: j_def e3 e4)
  have "j < 0 \<or> (i < j \<and> j < 2147483648)"
  proof (cases "i2 + 2 + cn * 28 < 2147483648")
    case True
    then have "j = i2 + 2 + cn * 28"
      unfolding jeq using a2(1) c(2) by (intro lo) linarith+
    then show ?thesis using e2 a1(1) k(2) c(2) True by linarith
  next
    case False
    then have "j = i2 + 2 + cn * 28 - 4294967296"
      unfolding jeq using i2lt c(1) by (intro hi) linarith+
    then show ?thesis using i2lt c(1) by linarith
  qed
  moreover have "int32 (int32 (i2 + 2) + int32 (int (unat cnt) * int indexEntrySize)) = j"
    by (simp add: j_def cn_def indexEntrySize_def)
  ultimately show "((b, int32 (int32 (i2 + 2) + int32 (int (unat cnt) * int indexEntrySize)),
        offs @ [i]), b, i, offs)
      \<in> measure (\<lambda>(b, i, offs). if i < 0 then 0 else nat (2147483649 - i))"
    using a1 i by auto
qed

declare indirect_scan.simps [simp del]

definition indirectIndex_UnmarshalBinary :: "indirectIndex \<Rightarrow> byte list \<Rightarrow> error + indirectIndex" where
  "indirectIndex_UnmarshalBinary d b =
     bindE (indirect_scan b 0 (idx_offsets d)) (\<lambda>offs.
       Inr \<lparr>idx_b = b, idx_offsets = offs\<rparr>)"

text \<open>\<open>sort.Search(n, f)\<close>: the least index in \<open>[0, n)\<close> at which \<open>f\<close> holds, by bisection.\<close>

function Search_loop :: "(nat \<Rightarrow> error + bool) \<Rightarrow> nat \<Rightarrow> nat \<Rightarrow> error + nat" where
  "Search_loop f i j =
     (if i < j then
        (let h = i + (j - i) div 2 in
         case f h of
           Inl e \<Rightarrow> Inl e
         | Inr t \<Rightarrow> if \<not> t then Search_loop f (h + 1) j else Search_loop f i h)
      else Inr i)"
  by pat_completeness auto
termination
  by (relation "measure (\<lambda>(f, i, j). j - i)") auto

declare Search_loop.simps [simp del]

definition Search :: "nat \<Rightarrow> (nat \<Rightarrow> error + bool) \<Rightarrow> error + nat" where
  "Search n f = Search_loop f 0 n"

text \<open>The closure that \<open>indirectIndex.Entries\<close> hands to \<open>sort.Search\<close>.\<close>

definition probe :: "indirectIndex \<Rightarrow> key \<Rightarrow> nat \<Rightarrow> error + bool" where
  "probe d k i =
     (if i < length (idx_offsets d) then
        (let offset = idx_offsets d ! i in
         bindE (bindE (subslice (idx_b d) offset (int32 (offset + 2))) btou16) (\<lambda>keyLen.
         bindE (subslice (idx_b d) (int32 (offset + 2))
                  (int32 (int32 (offset + 2) + int (unat keyLen)))) (\<lambda>k'.
           Inr (k = k' \<or> k' > k))))
      else Inl (Panic ''index out of range''))"

definition panicErr :: "string \<Rightarrow> error + 'a \<Rightarrow> error + 'a" where
  "panicErr msg r = (case r of Inl (Err _) \<Rightarrow> Inl (Panic msg) | _ \<Rightarrow> r)"

definition indirectIndex_Entries :: "indirectIndex \<Rightarrow> key \<Rightarrow> error + indexEntries" where
  "indirectIndex_Entries d k =
     bindE (Search (length (idx_offsets d)) (probe d k)) (\<lambda>i.
       if i < length (idx_offsets d) then
         (let ofs = idx_offsets d ! i in
          bindE (panicErr ''error reading key'' (bindE (subslice_from (idx_b d) ofs) readKey))
            (\<lambda>(n, k').
              if k' \<noteq> k then Inr []
              else
                bindE (panicErr ''error reading entries''
                         (bindE (subslice_from (idx_b d) (int32 (ofs + int32 (int n)))) readEntries))
                  (\<lambda>(m, entries). Inr entries)))
       else Inr [])"

definition indirectIndex_Entry :: "indirectIndex \<Rightarrow> key \<Rightarrow> Time \<Rightarrow> error + IndexEntry option" where
  "indirectIndex_Entry d k t =
     bindE (indirectIndex_Entries d k) (\<lambda>entries. Inr (find (\<lambda>e. Contains e t) entries))"

subsection \<open>Values and the block codec\<close>

text \<open>A \<open>float64\<close> value is held as its 64 bits; no arithmetic is done on it.\<close>

datatype Value =
    FloatValue Time "64 word"
  | Int64Value Time "64 word"
  | BoolValue Time bool
  | StringValue Time "byte list"
  | EmptyValue

text \<open>
  What the file code calls but does not contain: the checksum of the Go library, the
  constant \<open>tsdb.EOF\<close> of another package, and the block encoders and decoders of the
  four value types, whose compressing timestamp and value encoders are outside these
  sources. A decoder returns the values it appends to an empty slice.
\<close>

record extern =
  ChecksumIEEE :: "byte list \<Rightarrow> 32 word"
  tsdb_EOF :: "64 word"
  encodeFloatBlock :: "Value list \<Rightarrow> error + byte list"
  encodeInt64Block :: "Value list \<Rightarrow> error + byte list"
  encodeBoolBlock :: "Value list \<Rightarrow> error + byte list"
  encodeStringBlock :: "Value list \<Rightarrow> error + byte list"
  decodeFloatBlock :: "byte list \<Rightarrow> error + Value list"
  decodeInt64Block :: "byte list \<Rightarrow> error + Value list"
  decodeBoolBlock :: "byte list \<Rightarrow> error + Value list"
  decodeStringBlock :: "byte list \<Rightarrow> error + Value list"

fun Value_Time :: "extern \<Rightarrow> Value \<Rightarrow> Time" where
  "Value_Time x (FloatValue t v) = t"
| "Value_Time x (Int64Value t v) = t"
| "Value_Time x (BoolValue t v) = t"
| "Value_Time x (StringValue t v) = t"
| "Value_Time x EmptyValue = time_Unix (tsdb_EOF x)"

definition encodedBlockHeaderSize :: nat where
  "encodedBlockHeaderSize = 9"

definition Values_Encode :: "extern \<Rightarrow> Value list \<Rightarrow> error + byte list" where
  "Values_Encode x a =
     (case a of
        [] \<Rightarrow> Inl (Panic ''unable to encode block type'')
      | v # _ \<Rightarrow>
          (case v of
             FloatValue _ _ \<Rightarrow> encodeFloatBlock x a
           | Int64Value _ _ \<Rightarrow> encodeInt64Block x a
           | BoolValue _ _ \<Rightarrow> encodeBoolBlock x a
           | StringValue _ _ \<Rightarrow> encodeStringBlock x a
           | EmptyValue \<Rightarrow> Inl (Err ''unsupported value type'')))"

definition DecodeBlock :: "extern \<Rightarrow> byte list \<Rightarrow> error + Value list" where
  "DecodeBlock x block =
     (if length block \<le> encodedBlockHeaderSize then Inl (Panic ''decode of short block'')
      else
        (let blockType = block ! 8 in
         if blockType = 0 then decodeFloatBlock x block
         else if blockType = 1 then decodeInt64Block x block
         else if blockType = 2 then decodeBoolBlock x block
         else if blockType = 3 then decodeStringBlock x block
         else Inl (Panic ''unknown block type'')))"

subsection \<open>The writer\<close>

text \<open>
  The \<open>io.Writer\<close> is a byte buffer that either takes every write whole or, once it
  has failed, refuses every write.
\<close>

record sink =
  sink_data :: "byte list"
  sink_ok :: bool

definition sink_Write :: "sink \<Rightarrow> byte list \<Rightarrow> (nat \<times> error option) \<times> sink" where
  "sink_Write w p =
     (if sink_ok w then ((length p, None), w\<lparr>sink_data := sink_data w @ p\<rparr>)
      else ((0, Some (Err ''write failed'')), w))"

definition MagicNumber :: "32 word" where
  "MagicNumber = 0x16D116D1"

definition Version :: byte where
  "Version = 1"

record tsmWriter =
  tw_w :: sink
  tw_index :: directIndex
  tw_n :: "64 word"

definition NewTSMWriter :: "sink \<Rightarrow> error + tsmWriter" where
  "NewTSMWriter w =
     (case sink_Write w (u32tob MagicNumber @ [Version]) of
        ((n, Some e), w') \<Rightarrow> Inl e
      | ((n, None), w') \<Rightarrow> Inr \<lparr>tw_w = w', tw_index = NewDirectIndex, tw_n = of_nat n\<rparr>)"

text \<open>
  \<open>Write\<close> and \<open>Close\<close> return their error (\<open>None\<close> for \<open>nil\<close>) and the writer as
  the call leaves it: where a call panics or fails, the writer is as it was at that
  point.
\<close>

definition tsmWriter_Write ::
  "extern \<Rightarrow> tsmWriter \<Rightarrow> key \<Rightarrow> Value list \<Rightarrow> error option \<times> tsmWriter" where
  "tsmWriter_Write x t k vals =
     (case Values_Encode x vals of
        Inl e \<Rightarrow> (Some e, t)
      | Inr block \<Rightarrow>
          (case sink_Write (tw_w t) (u32tob (ChecksumIEEE x block) @ block) of
             ((n, Some e), w') \<Rightarrow> (Some e, t\<lparr>tw_w := w'\<rparr>)
           | ((n, None), w') \<Rightarrow>
               (case vals of
                  [] \<Rightarrow> (Some (Panic ''index out of range''), t\<lparr>tw_w := w'\<rparr>)
                | v # _ \<Rightarrow>
                    (None,
                     t\<lparr>tw_w := w',
                       tw_index := Add (tw_index t) k (Value_Time x v) (Value_Time x (last vals))
                                     (tw_n t) (of_nat n),
                       tw_n := tw_n t + of_nat n\<rparr>))))"

definition tsmWriter_Close ::
  "(indexEntries \<Rightarrow> indexEntries) \<Rightarrow> tsmWriter \<Rightarrow> error option \<times> tsmWriter" where
  "tsmWriter_Close srt t =
     (let indexPos = tw_n t;
          (b, d') = MarshalBinary srt (tw_index t)
      in case sink_Write (tw_w t) (b @ u64tob indexPos) of
           ((n, err), w') \<Rightarrow> (err, t\<lparr>tw_w := w', tw_index := d'\<rparr>))"

subsection \<open>The reader\<close>

text \<open>
  The \<open>io.ReadSeeker\<close> is an in-memory reader over a byte slice with a position, as
  \<open>bytes.Reader\<close> is: seeking before the start fails, seeking past the end does not,
  and a read returns the bytes left, up to the length asked for, or fails at the end.
\<close>

record source =
  src_data :: "byte list"
  src_pos :: int

datatype whence = SEEK_SET | SEEK_END

definition source_Seek :: "source \<Rightarrow> int \<Rightarrow> whence \<Rightarrow> (error + int) \<times> source" where
  "source_Seek r offset wh =
     (let abs = (case wh of SEEK_SET \<Rightarrow> offset | SEEK_END \<Rightarrow> int (length (src_data r)) + offset)
      in if abs < 0 then (Inl (Err ''negative position''), r)
         else (Inr abs, r\<lparr>src_pos := abs\<rparr>))"

text \<open>\<open>source_Read r n\<close> reads into a buffer of length \<open>n\<close> and returns the bytes read.\<close>

definition source_Read :: "source \<Rightarrow> nat \<Rightarrow> (error + byte list) \<times> source" where
  "source_Read r n =
     (if n = 0 then (Inr [], r)
      else if int (length (src_data r)) \<le> src_pos r then (Inl (Err ''EOF''), r)
      else
        (let bs = take n (drop (nat (src_pos r)) (src_data r))
         in (Inr bs, r\<lparr>src_pos := src_pos r + int (length bs)\<rparr>)))"

record tsmReader =
  tr_r :: source
  tr_indexStart :: int
  tr_indexEnd :: int
  tr_index :: directIndex

text \<open>
  \<open>init\<close>: the index pointer is read into a buffer of 8 bytes, the index into a new
  buffer of \<open>indexEnd - indexStart\<close> bytes (a negative length panics); what a read
  does not fill stays zero.
\<close>

definition tsmReader_init :: "source \<Rightarrow> error + tsmReader" where
  "tsmReader_init r0 =
     (case source_Seek r0 0 SEEK_END of
        (Inl e, r1) \<Rightarrow> Inl (Err ''init: failed to seek'')
      | (Inr sz, r1) \<Rightarrow>
     (let indexEnd = sz - 8 in
      case source_Seek r1 (- 8) SEEK_END of
        (Inl e, r2) \<Rightarrow> Inl (Err ''init: failed to seek to index ptr'')
      | (Inr _, r2) \<Rightarrow>
     (case source_Read r2 8 of
        (Inl e, r3) \<Rightarrow> Inl (Err ''init: failed to read index ptr'')
      | (Inr bs, r3) \<Rightarrow>
     (case btou64 (bs @ replicate (8 - length bs) 0) of
        Inl e \<Rightarrow> Inl e
      | Inr p \<Rightarrow>
     (let indexStart = sint p in
      case source_Seek r3 indexStart SEEK_SET of
        (Inl e, r4) \<Rightarrow> Inl (Err ''init: failed to seek to index'')
      | (Inr _, r4) \<Rightarrow>
     (if indexEnd - indexStart < 0 then Inl (Panic ''makeslice: len out of range'')
      else
        (let n = nat (indexEnd - indexStart) in
         case source_Read r4 n of
           (Inl e, r5) \<Rightarrow> Inl (Err ''init: read index'')
         | (Inr ibs, r5) \<Rightarrow>
             (case wrapErr ''init: unmarshal error''
                     (directIndex_UnmarshalBinary NewDirectIndex
                        (ibs @ replicate (n - length ibs) 0)) of
                Inl e \<Rightarrow> Inl e
              | Inr d \<Rightarrow>
                  Inr \<lparr>tr_r = r5, tr_indexStart = indexStart, tr_indexEnd = indexEnd,
                       tr_index = d\<rparr>))))))))"

definition NewTSMReader :: "source \<Rightarrow> error + tsmReader" where
  "NewTSMReader r = tsmReader_init r"

text \<open>
  Reading one block, as \<open>Read\<close> and the body of the loop of \<open>ReadAll\<close> do: seek to
  the offset, grow the buffer (of length \<open>blen\<close>) to the size of the block if it is
  smaller, read into the whole buffer, and decode what was read from its fifth byte on.
  The result carries the length of the buffer, which \<open>ReadAll\<close> keeps for the next
  block.
\<close>

definition readBlock ::
  "extern \<Rightarrow> source \<Rightarrow> nat \<Rightarrow> IndexEntry \<Rightarrow> (error + (Value list \<times> nat)) \<times> source" where
  "readBlock x r blen block =
     (case source_Seek r (sint (Offset block)) SEEK_SET of
        (Inl e, r1) \<Rightarrow> (Inl e, r1)
      | (Inr _, r1) \<Rightarrow>
          (let blen' = (if unat (Size block) > blen then unat (Size block) else blen) in
           case source_Read r1 blen' of
             (Inl e, r2) \<Rightarrow> (Inl e, r2)
           | (Inr bs, r2) \<Rightarrow>
               (case bindE (subslice bs 4 (int (length bs))) (DecodeBlock x) of
                  Inl e \<Rightarrow> (Inl e, r2)
                | Inr vs \<Rightarrow> (Inr (vs, blen'), r2))))"

definition tsmReader_Read ::
  "extern \<Rightarrow> tsmReader \<Rightarrow> key \<Rightarrow> Time \<Rightarrow> (error + Value list) \<times> tsmReader" where
  "tsmReader_Read x t k timestamp =
     (case Entry (tr_index t) k timestamp of
        None \<Rightarrow> (Inr [], t)
      | Some block \<Rightarrow>
          (case readBlock x (tr_r t) (16 * 1024) block of
             (Inl e, r) \<Rightarrow> (Inl e, t\<lparr>tr_r := r\<rparr>)
           | (Inr (vs, _), r) \<Rightarrow> (Inr vs, t\<lparr>tr_r := r\<rparr>)))"

fun readBlocks ::
  "extern \<Rightarrow> source \<Rightarrow> nat \<Rightarrow> indexEntries \<Rightarrow> Value list \<Rightarrow> (error + Value list) \<times> source" where
  "readBlocks x r blen [] vals = (Inr vals, r)"
| "readBlocks x r blen (block # blocks) vals =
     (case readBlock x r blen block of
        (Inl e, r') \<Rightarrow> (Inl e, r')
      | (Inr (temp, blen'), r') \<Rightarrow> readBlocks x r' blen' blocks (vals @ temp))"

definition tsmReader_ReadAll ::
  "extern \<Rightarrow> tsmReader \<Rightarrow> key \<Rightarrow> (error + Value list) \<times> tsmReader" where
  "tsmReader_ReadAll x t k =
     (let blocks = Entries (tr_index t) k in
      if length blocks = 0 then (Inr [], t)
      else
        (case readBlocks x (tr_r t) (16 * 1024) blocks [] of
           (res, r) \<Rightarrow> (res, t\<lparr>tr_r := r\<rparr>)))"

subsection \<open>Writing a file and reading it back\<close>

text \<open>
  What the tests of the writer do: make a writer over an empty buffer, write a list of
  keys with their values, close, make a reader over the bytes of the buffer and call
  \<open>ReadAll\<close> for a key.
\<close>

fun write_all :: "extern \<Rightarrow> tsmWriter \<Rightarrow> (key \<times> Value list) list \<Rightarrow> error option \<times> tsmWriter" where
  "write_all x t [] = (None, t)"
| "write_all x t ((k, vs) # ws) =
     (case tsmWriter_Write x t k vs of
        (Some e, t') \<Rightarrow> (Some e, t')
      | (None, t') \<Rightarrow> write_all x t' ws)"

definition write_then_read_all ::
  "(indexEntries \<Rightarrow> indexEntries) \<Rightarrow> extern \<Rightarrow> (key \<times> Value list) list \<Rightarrow> key \<Rightarrow> error + Value list"
where
  "write_then_read_all srt x ws k =
     (case NewTSMWriter \<lparr>sink_data = [], sink_ok = True\<rparr> of
        Inl e \<Rightarrow> Inl e
      | Inr t0 \<Rightarrow>
          (case write_all x t0 ws of
             (Some e, t1) \<Rightarrow> Inl e
           | (None, t1) \<Rightarrow>
               (case tsmWriter_Close srt t1 of
                  (Some e, t2) \<Rightarrow> Inl e
                | (None, t2) \<Rightarrow>
                    (case NewTSMReader \<lparr>src_data = sink_data (tw_w t2), src_pos = 0\<rparr> of
                       Inl e \<Rightarrow> Inl e
                     | Inr r \<Rightarrow> fst (tsmReader_ReadAll x r k)))))"

subsection \<open>Terms of the statements\<close>

text \<open>
  The layout of one key of the serialized index, in the words of the format:
  \<open>u16 keyLen | key | u16 entryCount | entryCount \<times> 28-byte entry\<close>, and the
  serialized form of a list of keys with their entries.
\<close>

definition key_record :: "key \<Rightarrow> indexEntries \<Rightarrow> byte list" where
  "key_record k es =
     u16tob (of_nat (length k)) @ k @ u16tob (of_nat (length es)) @ concat (map marshalEntry es)"

definition records_bytes :: "(key \<times> indexEntries) list \<Rightarrow> byte list" where
  "records_bytes recs = concat (map (\<lambda>(k, es). key_record k es) recs)"

text \<open>
  The entry that the 28 bytes written for \<open>e\<close> denote: its times are read back
  through \<open>int64\<close>. A time is an \<open>int64_time\<close> when \<open>UnixNano\<close> does not wrap it.
\<close>

definition wire_entry :: "IndexEntry \<Rightarrow> IndexEntry" where
  "wire_entry e =
     e\<lparr>MinTime := time_Unix (UnixNano (MinTime e)), MaxTime := time_Unix (UnixNano (MaxTime e))\<rparr>"

definition int64_time :: "Time \<Rightarrow> bool" where
  "int64_time t \<longleftrightarrow> - 9223372036854775808 \<le> t \<and> t < 9223372036854775808"

text \<open>The index that parsing a list of key records into \<open>d\<close> builds.\<close>

definition decoded :: "directIndex \<Rightarrow> (key \<times> indexEntries) list \<Rightarrow> directIndex" where
  "decoded d recs = foldl (\<lambda>d (k, es). addEntries d k (map wire_entry es)) d recs"

text \<open>
  An index whose lengths fit the 16-bit fields of the format and whose times are
  \<open>int64\<close> nanoseconds.
\<close>

definition index_ok :: "directIndex \<Rightarrow> bool" where
  "index_ok d \<longleftrightarrow>
     (\<forall>(k, es) \<in> set d. length k < 65536 \<and> length es < 65536 \<and>
        (\<forall>e \<in> set es. int64_time (MinTime e) \<and> int64_time (MaxTime e)))"

text \<open>
  A well-formed serialized index is the serialized form of a list of keys with their
  entries in which the keys are strictly ascending, the lengths fit their 16-bit
  fields, and the whole is shorter than 2 to the power 31 bytes, so that every position in it
  is an \<open>int32\<close>. \<open>offsets_from\<close> lists the positions at which the key records start.
\<close>

fun offsets_from :: "nat \<Rightarrow> (key \<times> indexEntries) list \<Rightarrow> int list" where
  "offsets_from p [] = []"
| "offsets_from p ((k, es) # recs) = int p # offsets_from (p + length (key_record k es)) recs"

definition wf_index :: "(key \<times> indexEntries) list \<Rightarrow> bool" where
  "wf_index recs \<longleftrightarrow>
     sorted_wrt (<) (map fst recs) \<and>
     (\<forall>(k, es) \<in> set recs. length k < 65536 \<and> length es < 65536) \<and>
     length (records_bytes recs) < 2147483648"

text \<open>
  An entry points to a block of a file that holds the values \<open>vs\<close>: the file has,
  at the offset of the entry, four bytes and then a block, together of the size of the
  entry, from which the decoder gives \<open>vs\<close> whatever bytes follow the block.
\<close>

definition points_to :: "extern \<Rightarrow> byte list \<Rightarrow> IndexEntry \<Rightarrow> Value list \<Rightarrow> bool" where
  "points_to x file e vs \<longleftrightarrow>
     (\<exists>pre c blk rest. file = pre @ c @ blk @ rest \<and> length c = 4 \<and>
        sint (Offset e) = int (length pre) \<and> unat (Size e) = 4 + length blk \<and>
        (\<forall>junk. DecodeBlock x (blk @ junk) = Inr vs))"

text \<open>
  The bytes that a write appends for a list of values, and for a list of writes; the
  entries that a list of writes starting at position \<open>n\<close> adds under a key.
\<close>

definition block_bytes :: "extern \<Rightarrow> Value list \<Rightarrow> byte list" where
  "block_bytes x vs =
     (case Values_Encode x vs of
        Inl e \<Rightarrow> []
      | Inr block \<Rightarrow> u32tob (ChecksumIEEE x block) @ block)"

definition blocks_bytes :: "extern \<Rightarrow> (key \<times> Value list) list \<Rightarrow> byte list" where
  "blocks_bytes x ws = concat (map (\<lambda>w. block_bytes x (snd w)) ws)"

fun written_entries :: "extern \<Rightarrow> 64 word \<Rightarrow> (key \<times> Value list) list \<Rightarrow> key \<Rightarrow> indexEntries" where
  "written_entries x n [] k = []"
| "written_entries x n ((k', vs) # ws) k =
     (if k' = k
      then [\<lparr>MinTime = Value_Time x (hd vs), MaxTime = Value_Time x (last vs), Offset = n,
             Size = of_nat (length (block_bytes x vs))\<rparr>]
      else []) @
     written_entries x (n + of_nat (length (block_bytes x vs))) ws k"

text \<open>
  What the round trip asks of the external codec for a list of values: it encodes them
  into a block that fits the 32-bit size field, and the decoder returns them from the
  block whatever bytes follow it (the reader hands the decoder all it has read, which
  runs past the end of the block). The writes fit the format when, besides, the keys
  fit their 16-bit length, the first and last times are \<open>int64\<close> nanoseconds, there are
  fewer than 65536 writes, and the positions stay within \<open>int64\<close>. They are ascending
  per key when the first times of the blocks of each key strictly ascend in write
  order.
\<close>

definition codec_ok :: "extern \<Rightarrow> Value list \<Rightarrow> bool" where
  "codec_ok x vs \<longleftrightarrow>
     (\<exists>block. Values_Encode x vs = Inr block \<and> 4 + length block < 4294967296 \<and>
        (\<forall>junk. DecodeBlock x (block @ junk) = Inr vs))"

definition writes_fit :: "extern \<Rightarrow> (key \<times> Value list) list \<Rightarrow> bool" where
  "writes_fit x ws \<longleftrightarrow>
     (\<forall>(k, vs) \<in> set ws. length k < 65536 \<and> codec_ok x vs \<and>
        int64_time (Value_Time x (hd vs)) \<and> int64_time (Value_Time x (last vs))) \<and>
     length ws < 65536 \<and>
     5 + length (blocks_bytes x ws) < 9223372036854775808"

definition ascending_per_key :: "extern \<Rightarrow> (key \<times> Value list) list \<Rightarrow> bool" where
  "ascending_per_key x ws \<longleftrightarrow>
     (\<forall>k. sorted_wrt (<) (map (\<lambda>w. Value_Time x (hd (snd w))) (filter (\<lambda>w. fst w = k) ws)))"

subsection \<open>Examples\<close>

text \<open>
  The key \<open>cpu\<close>; an index that was given a later block first; and an index that was
  given thirteen blocks, at the offsets 5, 25, ..., 245: seven of \<open>MinTime\<close> 0, then
  five of \<open>MinTime\<close> 1, then one more of \<open>MinTime\<close> 0.
\<close>

definition ex_key :: key where
  "ex_key = [99, 112, 117]"

definition ex_late_first :: directIndex where
  "ex_late_first = Add (Add NewDirectIndex ex_key 2 3 5 20) ex_key 0 1 25 20"

definition tie_entry :: "Time \<Rightarrow> 64 word \<Rightarrow> IndexEntry" where
  "tie_entry t off = \<lparr>MinTime = t, MaxTime = t, Offset = off, Size = 20\<rparr>"

definition ex_thirteen :: directIndex where
  "ex_thirteen =
     foldl (\<lambda>d (t, off). Add d ex_key t t off 20) NewDirectIndex
       [(0, 5), (0, 25), (0, 45), (0, 65), (0, 85), (0, 105), (0, 125), (1, 145), (1, 165),
        (1, 185), (1, 205), (1, 225), (0, 245)]"

text \<open>
  A block codec for the examples: a block of one \<open>int64\<close> value is the eight bytes of
  its time, the type byte and the eight bytes of the value; the decoder reads these
  seventeen bytes and no others. The checksum is left open.
\<close>

definition ex_encode :: "Value list \<Rightarrow> error + byte list" where
  "ex_encode vs =
     (case vs of
        [Int64Value t v] \<Rightarrow> Inr (u64tob (UnixNano t) @ [1] @ u64tob v)
      | _ \<Rightarrow> Inl (Err ''unsupported block''))"

definition ex_decode :: "byte list \<Rightarrow> error + Value list" where
  "ex_decode b =
     bindE (bindE (subslice b 0 8) btou64) (\<lambda>t.
     bindE (bindE (subslice b 9 17) btou64) (\<lambda>v.
       Inr [Int64Value (time_Unix t) v]))"

definition ex_extern :: "(byte list \<Rightarrow> 32 word) \<Rightarrow> extern" where
  "ex_extern crc =
     \<lparr>ChecksumIEEE = crc, tsdb_EOF = - 1,
      encodeFloatBlock = (\<lambda>vs. Inl (Err ''unsupported block'')),
      encodeInt64Block = ex_encode,
      encodeBoolBlock = (\<lambda>vs. Inl (Err ''unsupported block'')),
      encodeStringBlock = (\<lambda>vs. Inl (Err ''unsupported block'')),
      decodeFloatBlock = (\<lambda>b. Inl (Err ''unsupported block'')),
      decodeInt64Block = ex_decode,
      decodeBoolBlock = (\<lambda>b. Inl (Err ''unsupported block'')),
      decodeStringBlock = (\<lambda>b. Inl (Err ''unsupported block''))\<rparr>"

text \<open>
  An empty sink that takes writes, and the writer that \<open>NewTSMWriter\<close> makes of it.
\<close>

definition ex_sink :: sink where
  "ex_sink = \<lparr>sink_data = [], sink_ok = True\<rparr>"

definition ex_writer :: tsmWriter where
  "ex_writer =
     \<lparr>tw_w = \<lparr>sink_data = [22, 209, 22, 209, 1], sink_ok = True\<rparr>,
      tw_index = [], tw_n = 5\<rparr>"

text \<open>
  A file of one block under the key \<open>cpu\<close>, holding the value 1 at time 0, whose
  stored checksum is the checksum of the block plus one.
\<close>

definition ex_block :: "byte list" where
  "ex_block = u64tob (UnixNano 0) @ [1] @ u64tob 1"

definition ex_entry :: IndexEntry where
  "ex_entry = \<lparr>MinTime = 0, MaxTime = 0, Offset = 5, Size = 21\<rparr>"

definition ex_corrupt_file :: "(byte list \<Rightarrow> 32 word) \<Rightarrow> byte list" where
  "ex_corrupt_file crc =
     ([22, 209, 22, 209, 1] @ u32tob (crc ex_block + 1) @ ex_block) @
     records_bytes [(ex_key, [ex_entry])] @ u64tob 26"

text \<open>
  Two writes under the key \<open>cpu\<close>, in ascending order of time and with the later
  block first.
\<close>

definition ex_writes :: "(key \<times> Value list) list" where
  "ex_writes = [(ex_key, [Int64Value 0 1]), (ex_key, [Int64Value 1 2])]"

definition ex_writes_late_first :: "(key \<times> Value list) list" where
  "ex_writes_late_first = [(ex_key, [Int64Value 1 2]), (ex_key, [Int64Value 0 1])]"

section \<open>Properties\<close>

subsection \<open>IndexEntry.Contains\<close>

lemma Contains_upper: "MinTime e \<le> MaxTime e \<Longrightarrow> Contains e t \<longleftrightarrow> t \<le> MaxTime e"
  by (auto simp: Contains_def)

text \<open>
  C3, where the code departs from its own comment: \<open>Contains\<close> should hold exactly for
  \<open>MinTime \<le> t \<le> MaxTime\<close>. For the entry with \<open>MinTime = 5\<close> and \<open>MaxTime = 10\<close>
  and the time \<open>0\<close>, which lies strictly before \<open>MinTime\<close>, the code answers true: its
  last disjunct \<open>MaxTime.After(t)\<close> stands alone.
\<close>

theorem Contains_before_MinTime:
  "Contains \<lparr>MinTime = 5, MaxTime = 10, Offset = 0, Size = 0\<rparr> 0 \<and>
   \<not> (MinTime \<lparr>MinTime = 5, MaxTime = 10, Offset = 0, Size = 0\<rparr> \<le> (0::int) \<and>
      (0::int) \<le> MaxTime \<lparr>MinTime = 5, MaxTime = 10, Offset = 0, Size = 0\<rparr>)"
  by (simp add: Contains_def)

subsection \<open>Byte primitives and parsing\<close>

lemma length_be_encode [simp]: "length (be_encode n x) = n"
  by (induction n arbitrary: x) auto

lemma be_decode_snoc: "be_decode (xs @ [b]) = be_decode xs * 256 + unat b"
  by (simp add: be_decode_def)

lemma be_decode_encode: "be_decode (be_encode n x) = x mod 256 ^ n"
proof (induction n arbitrary: x)
  case 0
  then show ?case by (simp add: be_decode_def)
next
  case (Suc n)
  have "unat (of_nat (x mod 256) :: byte) = x mod 256"
    by (simp add: unat_of_nat)
  with Suc show ?case
    by (simp add: be_decode_snoc mod_mult2_eq)
qed

lemma length_u16tob [simp]: "length (u16tob v) = 2"
  by (simp add: u16tob_def)

lemma length_u32tob [simp]: "length (u32tob v) = 4"
  by (simp add: u32tob_def)

lemma length_u64tob [simp]: "length (u64tob v) = 8"
  by (simp add: u64tob_def)

lemma btou16_u16tob: "btou16 (u16tob v @ rest) = Inr v"
proof -
  have "unat v < 256 ^ 2" using unsigned_less [of v, where ?'a = nat] by simp
  then show ?thesis
    by (simp add: btou16_def u16tob_def be_decode_encode del: be_encode.simps)
qed

lemma btou32_u32tob: "btou32 (u32tob v @ rest) = Inr v"
proof -
  have "unat v < 256 ^ 4" using unsigned_less [of v, where ?'a = nat] by simp
  then show ?thesis
    by (simp add: btou32_def u32tob_def be_decode_encode del: be_encode.simps)
qed

lemma btou64_u64tob: "btou64 (u64tob v @ rest) = Inr v"
proof -
  have "unat v < 256 ^ 8" using unsigned_less [of v, where ?'a = nat] by simp
  then show ?thesis
    by (simp add: btou64_def u64tob_def be_decode_encode del: be_encode.simps)
qed

lemma bindE_Inr [simp]: "bindE (Inr x) f = f x"
  by (simp add: bindE_def)

lemma bindE_Inl [simp]: "bindE (Inl e) f = Inl e"
  by (simp add: bindE_def)

lemma wrapErr_Inr [simp]: "wrapErr msg (Inr x) = Inr x"
  by (simp add: wrapErr_def)

lemma panicErr_Inr [simp]: "panicErr msg (Inr x) = Inr x"
  by (simp add: panicErr_def)

lemma subslice_mid:
  "length p = n \<Longrightarrow> length a = m \<Longrightarrow> subslice (p @ a @ r) (int n) (int (n + m)) = Inr a"
  by (simp add: subslice_def)

lemma subslice_mid':
  "length p = n \<Longrightarrow> length a = m \<Longrightarrow> h = int (n + m) \<Longrightarrow> subslice (p @ a @ r) (int n) h = Inr a"
  by (simp add: subslice_def)

lemma subslice_prefix: "length a = m \<Longrightarrow> subslice (a @ r) 0 (int m) = Inr a"
  by (simp add: subslice_def)

lemma subslice_from_append: "length p = n \<Longrightarrow> subslice_from (p @ r) (int n) = Inr r"
  by (simp add: subslice_from_def)

lemma length_marshalEntry [simp]: "length (marshalEntry e) = 28"
  by (simp add: marshalEntry_def)

lemma length_concat_marshalEntry [simp]:
  "length (concat (map marshalEntry es)) = 28 * length es"
  by (induction es) auto

lemma IndexEntry_UnmarshalBinary_marshalEntry:
  "IndexEntry_UnmarshalBinary (marshalEntry e) = Inr (wire_entry e)"
proof -
  let ?a = "u64tob (UnixNano (MinTime e))" and ?b = "u64tob (UnixNano (MaxTime e))"
    and ?c = "u64tob (Offset e)" and ?d = "u32tob (Size e)"
  have s1: "subslice (?a @ ?b @ ?c @ ?d) 0 8 = Inr ?a"
    using subslice_prefix [of ?a 8 "?b @ ?c @ ?d"] by simp
  have s2: "subslice (?a @ ?b @ ?c @ ?d) 8 16 = Inr ?b"
    using subslice_mid [of ?a 8 ?b 8 "?c @ ?d"] by simp
  have s3: "subslice (?a @ ?b @ ?c @ ?d) 16 24 = Inr ?c"
    using subslice_mid [of "?a @ ?b" 16 ?c 8 ?d] by simp
  have s4: "subslice (?a @ ?b @ ?c @ ?d) 24 28 = Inr ?d"
    using subslice_mid [of "?a @ ?b @ ?c" 24 ?d 4 "[]"] by simp
  have b64: "btou64 (u64tob v) = Inr v" for v
    using btou64_u64tob [of v "[]"] by simp
  have b32: "btou32 (u32tob v) = Inr v" for v
    using btou32_u32tob [of v "[]"] by simp
  show ?thesis
    by (simp add: IndexEntry_UnmarshalBinary_def indexEntrySize_def s1 s2 s3 s4 b64 b32
        wire_entry_def marshalEntry_def [of e])
qed

lemma wire_entry_id: "int64_time (MinTime e) \<Longrightarrow> int64_time (MaxTime e) \<Longrightarrow> wire_entry e = e"
  by (simp add: wire_entry_def time_Unix_def UnixNano_def int64_time_def
      sint_sbintrunc' signed_take_bit_int_eq_self)

lemma readEntries_loop_marshal:
  "length h = 2 \<Longrightarrow>
   readEntries_loop (h @ concat (map marshalEntry pre) @ concat (map marshalEntry es) @ rest)
     (length pre) (length es) = Inr (map wire_entry es)"
proof (induction es arbitrary: pre)
  case Nil
  then show ?case by simp
next
  case (Cons e es)
  let ?b = "h @ concat (map marshalEntry pre) @ concat (map marshalEntry (e # es)) @ rest"
  have sl: "subslice ?b (int (length pre * indexEntrySize + 2))
      (int (length pre * indexEntrySize + 2 + indexEntrySize)) = Inr (marshalEntry e)"
    using subslice_mid' [of "h @ concat (map marshalEntry pre)" "length pre * 28 + 2"
        "marshalEntry e" 28 _ "concat (map marshalEntry es) @ rest"] Cons.prems
    by (simp add: indexEntrySize_def)
  have "readEntries_loop ?b (Suc (length pre)) (length es) = Inr (map wire_entry es)"
    using Cons.IH [of "pre @ [e]"] Cons.prems by simp
  then show ?case
    using sl by (simp add: IndexEntry_UnmarshalBinary_marshalEntry)
qed

lemma unat_of_nat16: "n < 65536 \<Longrightarrow> unat (of_nat n :: 16 word) = n"
  by (simp add: unat_of_nat)

lemma uint_of_nat16: "n < 65536 \<Longrightarrow> uint (of_nat n :: 16 word) = int n"
  using unat_of_nat16 [of n] by (simp add: uint_nat)

lemma readEntries_marshal:
  assumes "length es < 65536"
  shows "readEntries (u16tob (of_nat (length es)) @ concat (map marshalEntry es) @ rest)
    = Inr (2 + 28 * length es, map wire_entry es)"
proof -
  let ?h = "u16tob (of_nat (length es))"
  have "subslice (?h @ concat (map marshalEntry es) @ rest) 0 2 = Inr ?h"
    using subslice_prefix [of ?h 2] by simp
  moreover have "btou16 ?h = Inr (of_nat (length es))"
    using btou16_u16tob [of _ "[]"] by simp
  moreover have "readEntries_loop (?h @ concat (map marshalEntry es) @ rest) 0 (length es)
      = Inr (map wire_entry es)"
    using readEntries_loop_marshal [of ?h "[]" es rest] by simp
  ultimately show ?thesis
    using assms by (simp add: readEntries_def unat_of_nat16 indexEntrySize_def)
qed

lemma readKey_marshal:
  assumes "length k < 65536"
  shows "readKey (u16tob (of_nat (length k)) @ k @ rest) = Inr (2 + length k, k)"
proof -
  let ?h = "u16tob (of_nat (length k))"
  have "subslice (?h @ k @ rest) 0 2 = Inr ?h"
    using subslice_prefix [of ?h 2] by simp
  moreover have "btou16 ?h = Inr (of_nat (length k))"
    using btou16_u16tob [of _ "[]"] by simp
  moreover have "subslice (?h @ k @ rest) 2 (2 + int (length k)) = Inr k"
    using subslice_mid' [of ?h 2 k "length k" "2 + int (length k)" rest] by simp
  ultimately show ?thesis
    using assms by (simp add: readKey_def unat_of_nat16 uint_of_nat16)
qed

subsection \<open>The encoder and the decoder of the direct index\<close>

lemma Entries_update: "Entries (AList.update k v d) k' = (if k' = k then v else Entries d k')"
  by (simp add: Entries_def update_conv')

lemma Entries_absent: "k \<notin> fst ` set d \<Longrightarrow> Entries d k = []"
  by (simp add: Entries_def map_of_eq_None_iff [THEN iffD2])

lemma foldl_marshalEntry:
  "foldl (\<lambda>acc e. acc @ marshalEntry e) b es = b @ concat (map marshalEntry es)"
  by (induction es arbitrary: b) auto

lemma marshalKeys_bytes:
  "distinct ks \<Longrightarrow>
   fst (marshalKeys srt ks d b) = b @ concat (map (\<lambda>k. key_record k (srt (Entries d k))) ks)"
proof (induction ks arbitrary: d b)
  case Nil
  then show ?case by simp
next
  case (Cons k ks)
  let ?d = "AList.update k (srt (Entries d k)) d"
  let ?kr = "key_record k (srt (Entries d k))"
  have meq: "map (\<lambda>k'. key_record k' (srt (Entries ?d k'))) ks
      = map (\<lambda>k'. key_record k' (srt (Entries d k'))) ks"
    using Cons.prems by (intro map_cong) (auto simp: Entries_update)
  have step: "marshalKeys srt (k # ks) d b = marshalKeys srt ks ?d (b @ ?kr)"
    by (simp add: Let_def foldl_marshalEntry key_record_def)
  have "fst (marshalKeys srt ks ?d (b @ ?kr))
      = (b @ ?kr) @ concat (map (\<lambda>k'. key_record k' (srt (Entries ?d k'))) ks)"
    using Cons.prems by (intro Cons.IH) simp
  then show ?case
    unfolding step meq by simp
qed

lemma marshalKeys_Entries:
  "distinct ks \<Longrightarrow>
   Entries (snd (marshalKeys srt ks d b)) k = (if k \<in> set ks then srt (Entries d k) else Entries d k)"
proof (induction ks arbitrary: d b)
  case Nil
  then show ?case by simp
next
  case (Cons k' ks)
  then show ?case
    by (auto simp: Let_def Entries_update)
qed

lemma marshalKeys_dom:
  "fst ` set (snd (marshalKeys srt ks d b)) = fst ` set d \<union> set ks"
proof (induction ks arbitrary: d b)
  case Nil
  then show ?case by simp
next
  case (Cons k ks)
  then show ?case
    by (auto simp: Let_def dom_update)
qed

lemma sorted_keys:
  "distinct (sort (map_keys d))" "sorted (sort (map_keys d))"
  "set (sort (map_keys d)) = fst ` set d"
  by (simp_all add: map_keys_def)

lemma length_key_record:
  "length (key_record k es) = 4 + length k + 28 * length es"
  by (simp add: key_record_def)

lemma unmarshalFrom_records:
  assumes "\<forall>(k, es) \<in> set recs. length k < 65536 \<and> length es < 65536"
  shows "unmarshalFrom d (pre @ records_bytes recs) (length pre) = Inr (decoded d recs)"
  using assms
proof (induction recs arbitrary: d pre)
  case Nil
  then show ?case by (simp add: records_bytes_def decoded_def unmarshalFrom.simps)
next
  case (Cons r recs)
  obtain k es where r: "r = (k, es)" by (cases r)
  from Cons.prems r have bk: "length k < 65536" and be: "length es < 65536" by auto
  let ?rest = "records_bytes recs"
  let ?b = "pre @ records_bytes (r # recs)"
  have b: "?b = pre @ key_record k es @ ?rest"
    by (simp add: records_bytes_def r)
  have lt: "length pre < length ?b"
    by (simp add: b length_key_record)
  have k1: "bindE (subslice_from ?b (int (length pre))) readKey = Inr (2 + length k, k)"
    unfolding b
    by (simp add: subslice_from_append [of pre] key_record_def readKey_marshal [OF bk])
  have e0: "?b = (pre @ u16tob (of_nat (length k)) @ k) @
      (u16tob (of_nat (length es)) @ concat (map marshalEntry es) @ ?rest)"
    by (simp add: b key_record_def)
  have k2: "bindE (subslice_from ?b (int (length pre + (2 + length k)))) readEntries
      = Inr (2 + 28 * length es, map wire_entry es)"
    unfolding e0
    by (subst subslice_from_append) (simp_all add: readEntries_marshal [OF be])
  have e1: "?b = (pre @ key_record k es) @ ?rest"
    by (simp add: b)
  have pos: "length pre + (2 + length k) + (2 + 28 * length es) = length (pre @ key_record k es)"
    by (simp add: length_key_record)
  have "\<forall>(k, es) \<in> set recs. length k < 65536 \<and> length es < 65536"
    using Cons.prems by simp
  then have ih: "unmarshalFrom (addEntries d k (map wire_entry es)) ?b
      (length (pre @ key_record k es))
      = Inr (decoded (addEntries d k (map wire_entry es)) recs)"
    unfolding e1 by (rule Cons.IH)
  have "decoded d (r # recs) = decoded (addEntries d k (map wire_entry es)) recs"
    by (simp add: decoded_def r)
  then show ?case
    by (subst unmarshalFrom.simps)
      (simp only: lt if_True k1 k2 wrapErr_Inr sum.case prod.case pos ih)
qed

lemma decoded_Entries:
  "Entries (decoded d recs) k
     = Entries d k @ concat (map (\<lambda>r. map wire_entry (snd r)) (filter (\<lambda>r. fst r = k) recs))"
proof (induction recs arbitrary: d)
  case Nil
  then show ?case by (simp add: decoded_def)
next
  case (Cons r recs)
  obtain k' es where r: "r = (k', es)" by (cases r)
  have "decoded d (r # recs) = decoded (addEntries d k' (map wire_entry es)) recs"
    by (simp add: decoded_def r)
  then show ?case
    using Cons.IH [of "addEntries d k' (map wire_entry es)"]
    by (auto simp: r addEntries_def Entries_update)
qed

lemma decoded_dom: "fst ` set (decoded d recs) = fst ` set d \<union> fst ` set recs"
proof (induction recs arbitrary: d)
  case Nil
  then show ?case by (simp add: decoded_def)
next
  case (Cons r recs)
  obtain k' es where r: "r = (k', es)" by (cases r)
  have "decoded d (r # recs) = decoded (addEntries d k' (map wire_entry es)) recs"
    by (simp add: decoded_def r)
  moreover have "fst ` set (addEntries d k' (map wire_entry es)) = insert k' (fst ` set d)"
    by (simp add: addEntries_def dom_update)
  ultimately show ?case
    using Cons.IH [of "addEntries d k' (map wire_entry es)"] by (auto simp: r)
qed

lemma filter_fst_distinct:
  "distinct (map fst recs) \<Longrightarrow>
   filter (\<lambda>r. fst r = k) recs = (case map_of recs k of None \<Rightarrow> [] | Some es \<Rightarrow> [(k, es)])"
proof (induction recs)
  case Nil
  then show ?case by simp
next
  case (Cons r recs)
  obtain k' es where r: "r = (k', es)" by (cases r)
  show ?case
  proof (cases "k' = k")
    case True
    with Cons.prems r have "k \<notin> fst ` set recs" by auto
    then have "filter (\<lambda>r. fst r = k) recs = []"
      by (auto simp: filter_empty_conv)
    with True r show ?thesis by simp
  next
    case False
    with Cons r show ?thesis by simp
  qed
qed

lemma decoded_Entries_distinct:
  "distinct (map fst recs) \<Longrightarrow>
   Entries (decoded [] recs) k = map wire_entry (Entries recs k)"
  by (simp add: decoded_Entries filter_fst_distinct) (simp add: Entries_def split: option.splits)

subsection \<open>The sorting routine\<close>

lemma go_sort_mset: "go_sort srt \<Longrightarrow> mset (srt xs) = mset xs"
  by (simp add: go_sort_def)

lemma go_sort_sorted: "go_sort srt \<Longrightarrow> sorted (map Less_key (srt xs))"
  by (simp add: go_sort_def)

lemma go_sort_length: "go_sort srt \<Longrightarrow> length (srt xs) = length xs"
  using go_sort_mset [of srt xs] by (metis size_mset)

lemma go_sort_set: "go_sort srt \<Longrightarrow> set (srt xs) = set xs"
  using go_sort_mset [of srt xs] by (metis set_mset_mset)

lemma go_sort_Nil: "go_sort srt \<Longrightarrow> srt [] = []"
  using go_sort_length [of srt "[]"] by simp

lemma go_sort_sort_key: "go_sort (sort_key Less_key)"
  by (simp add: go_sort_def)

lemma filter_key_distinct:
  "distinct (map f xs) \<Longrightarrow> k \<in> set xs \<Longrightarrow> filter (\<lambda>x. f k = f x) xs = [k]"
proof (induction xs)
  case Nil
  then show ?case by simp
next
  case (Cons a xs)
  show ?case
  proof (cases "k = a")
    case True
    have "filter (\<lambda>x. f a = f x) xs = []"
      using Cons.prems(1) by (auto simp: filter_empty_conv)
    with True show ?thesis by simp
  next
    case False
    with Cons.prems have k: "k \<in> set xs" by simp
    then have "f k \<in> f ` set xs" by simp
    with Cons.prems(1) have "f k \<noteq> f a" by auto
    with Cons k show ?thesis by simp
  qed
qed

lemma sorted_distinct_perm_unique:
  assumes "mset ys = mset xs" "sorted (map f ys)" "sorted (map f xs)" "distinct (map f xs)"
  shows "ys = xs"
proof -
  have "mset (map f ys) = mset (map f xs)" using assms(1) by simp
  then have dy: "distinct (map f ys)"
    using assms(4) by (metis mset_eq_imp_distinct_iff)
  have sx: "set ys = set xs" using assms(1) by (metis set_mset_mset)
  have "sort_key f xs = ys"
  proof (rule properties_for_sort_key)
    show "mset ys = mset xs" by fact
    show "sorted (map f ys)" by fact
    fix k assume "k \<in> set ys"
    then show "filter (\<lambda>x. f k = f x) ys = filter (\<lambda>x. f k = f x) xs"
      using filter_key_distinct [OF dy] filter_key_distinct [OF assms(4)] sx by simp
  qed
  moreover have "sort_key f xs = xs"
    using assms(3) by (simp add: sort_key_id_if_sorted)
  ultimately show ?thesis by simp
qed

lemma go_sort_strict_id:
  "go_sort srt \<Longrightarrow> sorted_wrt (<) (map Less_key xs) \<Longrightarrow> srt xs = xs"
  by (intro sorted_distinct_perm_unique [where f = Less_key])
    (simp_all add: go_sort_mset go_sort_sorted strict_sorted_iff)

lemma Less_key_wire: "MinTime (wire_entry e) = Less_key e"
  by (simp add: wire_entry_def Less_key_def time_Unix_def)

lemma Less_key_int64: "int64_time (MinTime e) \<Longrightarrow> Less_key e = MinTime e"
  by (simp add: Less_key_def UnixNano_def int64_time_def sint_sbintrunc' signed_take_bit_int_eq_self)

lemma set_map_keys: "set (map_keys d) = fst ` set d"
  by (simp add: map_keys_def)

lemma distinct_map_keys: "distinct (map_keys d)"
  by (simp add: map_keys_def)

lemma MarshalBinary_bytes:
  "fst (MarshalBinary srt d)
     = records_bytes (map (\<lambda>k. (k, srt (Entries d k))) (sort (map_keys d)))"
  by (simp add: MarshalBinary_def marshalKeys_bytes distinct_map_keys records_bytes_def comp_def)

lemma MarshalBinary_Entries:
  "go_sort srt \<Longrightarrow> Entries (snd (MarshalBinary srt d)) k = srt (Entries d k)"
  by (simp add: MarshalBinary_def marshalKeys_Entries distinct_map_keys set_map_keys
      Entries_absent go_sort_Nil)

lemma MarshalBinary_dom: "fst ` set (snd (MarshalBinary srt d)) = fst ` set d"
  by (simp add: MarshalBinary_def marshalKeys_dom set_map_keys)

lemma Entries_set: "Entries d k \<noteq> [] \<Longrightarrow> (k, Entries d k) \<in> set d"
  by (auto simp: Entries_def split: option.splits dest: map_of_SomeD)

lemma index_ok_Entries:
  assumes "index_ok d"
  shows "length (Entries d k) < 65536"
    and "e \<in> set (Entries d k) \<Longrightarrow> int64_time (MinTime e) \<and> int64_time (MaxTime e)"
proof -
  show "length (Entries d k) < 65536"
  proof (cases "Entries d k = []")
    case False
    from Entries_set [OF this] assms show ?thesis by (auto simp: index_ok_def)
  qed simp
  assume e: "e \<in> set (Entries d k)"
  then have "Entries d k \<noteq> []" by auto
  from Entries_set [OF this] assms e
  show "int64_time (MinTime e) \<and> int64_time (MaxTime e)"
    by (auto simp: index_ok_def)
qed

lemma index_ok_key: "index_ok d \<Longrightarrow> k \<in> fst ` set d \<Longrightarrow> length k < 65536"
  by (auto simp: index_ok_def)

lemma decode_encode:
  assumes "go_sort srt" "index_ok d"
  shows "\<exists>d'. directIndex_UnmarshalBinary NewDirectIndex (fst (MarshalBinary srt d)) = Inr d' \<and>
    fst ` set d' = fst ` set d \<and> (\<forall>k. Entries d' k = srt (Entries d k))"
proof -
  let ?ks = "sort (map_keys d)"
  let ?recs = "map (\<lambda>k. (k, srt (Entries d k))) ?ks"
  have bnd: "\<forall>(k, es) \<in> set ?recs. length k < 65536 \<and> length es < 65536"
    using assms by (auto simp: set_map_keys go_sort_length index_ok_Entries index_ok_key)
  have dec: "directIndex_UnmarshalBinary NewDirectIndex (fst (MarshalBinary srt d))
      = Inr (decoded [] ?recs)"
    using unmarshalFrom_records [OF bnd, of "[]" "[]"]
    by (simp add: directIndex_UnmarshalBinary_def NewDirectIndex_def MarshalBinary_bytes)
  have dom: "fst ` set (decoded [] ?recs) = fst ` set d"
    by (simp add: decoded_dom image_image set_map_keys)
  have dist: "distinct (map fst ?recs)"
    by (simp add: comp_def distinct_map_keys)
  have ent: "Entries (decoded [] ?recs) k = srt (Entries d k)" for k
  proof -
    have w: "map wire_entry (srt (Entries d k)) = srt (Entries d k)"
      using assms by (intro map_idI wire_entry_id) (auto simp: go_sort_set index_ok_Entries)
    have er: "Entries ?recs k = srt (Entries d k)"
    proof (cases "k \<in> fst ` set d")
      case True
      then have "map_of ?recs k = Some (srt (Entries d k))"
        by (simp add: map_of_map_restrict set_map_keys)
      then show ?thesis
        unfolding Entries_def [of ?recs] by simp
    next
      case False
      then have "map_of ?recs k = None"
        by (simp add: map_of_map_restrict set_map_keys)
      then have "Entries ?recs k = []"
        unfolding Entries_def [of ?recs] by simp
      then show ?thesis
        using False assms(1) by (simp add: Entries_absent go_sort_Nil)
    qed
    show ?thesis
      by (simp only: decoded_Entries_distinct [OF dist] er w)
  qed
  from dec dom ent show ?thesis by blast
qed

lemma Entries_ex_late_first:
  "Entries ex_late_first ex_key =
     [\<lparr>MinTime = 2, MaxTime = 3, Offset = 5, Size = 20\<rparr>,
      \<lparr>MinTime = 0, MaxTime = 1, Offset = 25, Size = 20\<rparr>]"
  by (simp add: ex_late_first_def Add_def Entries_def NewDirectIndex_def)

lemma Entries_ex_thirteen:
  "Entries ex_thirteen ex_key =
     [tie_entry 0 5, tie_entry 0 25, tie_entry 0 45, tie_entry 0 65, tie_entry 0 85,
      tie_entry 0 105, tie_entry 0 125, tie_entry 1 145, tie_entry 1 165, tie_entry 1 185,
      tie_entry 1 205, tie_entry 1 225, tie_entry 0 245]"
  by (simp add: ex_thirteen_def Add_def Entries_def NewDirectIndex_def tie_entry_def)

lemma keys_ex_thirteen: "sort (map_keys ex_thirteen) = [ex_key]"
  by (simp add: ex_thirteen_def Add_def Entries_def NewDirectIndex_def map_keys_def)

text \<open>
  \<open>sort.Sort\<close> on these thirteen entries, one more than it sorts by insertion alone.
  The pivot is the entry in the middle, at offset 125, and \<open>partition\<close> swaps it with
  the first entry, at offset 5. No entry is less than the pivot, so the pivot stays in
  front, and the insertion sort of the twelve entries after it moves only the last
  entry, to the end of those of \<open>MinTime\<close> 0. Neither \<open>heapSort\<close> nor
  \<open>breakPatterns\<close> is reached.
\<close>

lemma sort_Sort_ex_thirteen:
  "sort_Sort
     [tie_entry 0 5, tie_entry 0 25, tie_entry 0 45, tie_entry 0 65, tie_entry 0 85,
      tie_entry 0 105, tie_entry 0 125, tie_entry 1 145, tie_entry 1 165, tie_entry 1 185,
      tie_entry 1 205, tie_entry 1 225, tie_entry 0 245] =
     [tie_entry 0 125, tie_entry 0 25, tie_entry 0 45, tie_entry 0 65, tie_entry 0 85,
      tie_entry 0 105, tie_entry 0 5, tie_entry 0 245, tie_entry 1 145, tie_entry 1 165,
      tie_entry 1 185, tie_entry 1 205, tie_entry 1 225]"
  by code_simp

lemma index_ok_ex_late_first: "index_ok ex_late_first"
  by (simp add: index_ok_def ex_late_first_def Add_def Entries_def NewDirectIndex_def
      ex_key_def int64_time_def)

lemma Less_key_simps: "Less_key \<lparr>MinTime = 0, MaxTime = a, Offset = b, Size = c\<rparr> = 0"
  "Less_key \<lparr>MinTime = 1, MaxTime = a, Offset = b, Size = c\<rparr> = 1"
  "Less_key \<lparr>MinTime = 2, MaxTime = a, Offset = b, Size = c\<rparr> = 2"
  by (simp_all add: Less_key_def UnixNano_def)

subsection \<open>Encoding sorts the index in place\<close>

text \<open>
  C10: \<open>MarshalBinary\<close> changes the index it encodes. For every direct index that
  holds, under some key, entries out of \<open>MinTime\<close> order (the times being \<open>int64\<close>
  nanoseconds), \<open>Entries\<close> of that key after \<open>MarshalBinary\<close> is the same entries in
  ascending order of \<open>MinTime\<close>, and so differs from what it returned before.
\<close>

theorem MarshalBinary_sorts_in_place:
  assumes "go_sort srt"
    and "\<forall>e \<in> set (Entries d k). int64_time (MinTime e)"
    and "\<not> sorted (map MinTime (Entries d k))"
  shows "sorted (map MinTime (Entries (snd (MarshalBinary srt d)) k)) \<and>
    mset (Entries (snd (MarshalBinary srt d)) k) = mset (Entries d k) \<and>
    Entries (snd (MarshalBinary srt d)) k \<noteq> Entries d k"
proof -
  have e: "Entries (snd (MarshalBinary srt d)) k = srt (Entries d k)"
    using assms(1) by (rule MarshalBinary_Entries)
  have meq: "map MinTime (srt (Entries d k)) = map Less_key (srt (Entries d k))"
    using assms(1,2) by (intro map_cong) (auto simp: go_sort_set Less_key_int64)
  have s: "sorted (map MinTime (srt (Entries d k)))"
    unfolding meq using assms(1) by (rule go_sort_sorted)
  with assms(3) have "srt (Entries d k) \<noteq> Entries d k" by auto
  with s e assms(1) show ?thesis by (simp add: go_sort_mset)
qed

text \<open>The index that was given the later block first is such an index.\<close>

theorem MarshalBinary_sorts_in_place_witness:
  "\<not> sorted (map MinTime (Entries ex_late_first ex_key)) \<and>
   sorted (map MinTime (Entries (snd (MarshalBinary (sort_key Less_key) ex_late_first)) ex_key)) \<and>
   mset (Entries (snd (MarshalBinary (sort_key Less_key) ex_late_first)) ex_key)
     = mset (Entries ex_late_first ex_key) \<and>
   Entries (snd (MarshalBinary (sort_key Less_key) ex_late_first)) ex_key
     \<noteq> Entries ex_late_first ex_key"
proof -
  have u: "\<not> sorted (map MinTime (Entries ex_late_first ex_key))"
    by (simp add: Entries_ex_late_first)
  have r: "\<forall>e \<in> set (Entries ex_late_first ex_key). int64_time (MinTime e)"
    by (simp add: Entries_ex_late_first int64_time_def)
  show ?thesis
    using MarshalBinary_sorts_in_place [OF go_sort_sort_key r u] u by simp
qed

subsection \<open>The serialized form\<close>

text \<open>
  C6, as the code has it: the serialized form is the concatenation of one key record
  per key of the index, the keys in strictly ascending lexicographic byte order, and
  each record carries the entries of its key, permuted into ascending order of the
  \<open>MinTime\<close> that their bytes denote. Nothing is said about entries of equal
  \<open>MinTime\<close>: their order is the one that the sorting routine leaves.
\<close>

theorem MarshalBinary_layout:
  assumes "go_sort srt"
  shows "\<exists>ks. sorted_wrt (<) ks \<and> set ks = fst ` set d \<and>
    fst (MarshalBinary srt d) = concat (map (\<lambda>k. key_record k (srt (Entries d k))) ks) \<and>
    (\<forall>k. mset (srt (Entries d k)) = mset (Entries d k) \<and>
         sorted (map (\<lambda>e. MinTime (wire_entry e)) (srt (Entries d k))))"
proof -
  let ?ks = "sort (map_keys d)"
  have "sorted_wrt (<) ?ks"
    by (simp add: strict_sorted_iff distinct_map_keys)
  moreover have "set ?ks = fst ` set d"
    by (simp add: set_map_keys)
  moreover have "fst (MarshalBinary srt d)
      = concat (map (\<lambda>k. key_record k (srt (Entries d k))) ?ks)"
    by (simp add: MarshalBinary_bytes records_bytes_def comp_def)
  moreover have "mset (srt (Entries d k)) = mset (Entries d k) \<and>
      sorted (map (\<lambda>e. MinTime (wire_entry e)) (srt (Entries d k)))" for k
    using assms by (simp add: go_sort_mset go_sort_sorted Less_key_wire [abs_def])
  ultimately show ?thesis by blast
qed

text \<open>An instance: the index of thirteen blocks, sorted by insertion.\<close>

theorem MarshalBinary_layout_witness:
  "\<exists>ks. sorted_wrt (<) ks \<and> set ks = fst ` set ex_thirteen \<and>
    fst (MarshalBinary (sort_key Less_key) ex_thirteen)
      = concat (map (\<lambda>k. key_record k (sort_key Less_key (Entries ex_thirteen k))) ks) \<and>
    (\<forall>k. mset (sort_key Less_key (Entries ex_thirteen k)) = mset (Entries ex_thirteen k) \<and>
         sorted (map (\<lambda>e. MinTime (wire_entry e))
           (sort_key Less_key (Entries ex_thirteen k))))"
  using MarshalBinary_layout [OF go_sort_sort_key] .

text \<open>
  C6 as stated fails in its last part: \<open>MarshalBinary\<close> sorts with \<open>sort.Sort\<close>, which
  is not a stable sort. For the index of thirteen blocks, the eight entries of
  \<open>MinTime\<close> 0 were added in the order of the offsets 5, 25, 45, 65, 85, 105, 125, 245
  and are serialized in the order 125, 25, 45, 65, 85, 105, 5, 245: the entries at the
  offsets 5 and 125 have changed places.
\<close>

theorem MarshalBinary_not_stable:
  "Entries ex_thirteen ex_key =
     [tie_entry 0 5, tie_entry 0 25, tie_entry 0 45, tie_entry 0 65, tie_entry 0 85,
      tie_entry 0 105, tie_entry 0 125, tie_entry 1 145, tie_entry 1 165, tie_entry 1 185,
      tie_entry 1 205, tie_entry 1 225, tie_entry 0 245] \<and>
   fst (MarshalBinary sort_Sort ex_thirteen) =
     key_record ex_key
       [tie_entry 0 125, tie_entry 0 25, tie_entry 0 45, tie_entry 0 65, tie_entry 0 85,
        tie_entry 0 105, tie_entry 0 5, tie_entry 0 245, tie_entry 1 145, tie_entry 1 165,
        tie_entry 1 185, tie_entry 1 205, tie_entry 1 225]"
  by (simp add: MarshalBinary_bytes keys_ex_thirteen records_bytes_def Entries_ex_thirteen
      sort_Sort_ex_thirteen)

subsection \<open>Decoding an encoded index\<close>

text \<open>
  C5, as the code has it: for every direct index whose key and entry-list lengths fit
  16 bits and whose times are \<open>int64\<close> nanoseconds, decoding its encoding into a fresh
  index succeeds and gives the same keys and, for each key, the same entries in
  ascending order of \<open>MinTime\<close>: the order that the encoded index itself holds after
  the call. It is the order held before the call where that was strictly ascending.
\<close>

theorem decode_encode_sorted:
  assumes "go_sort srt" and "index_ok d"
  shows "\<exists>d'. directIndex_UnmarshalBinary NewDirectIndex (fst (MarshalBinary srt d)) = Inr d' \<and>
    fst ` set d' = fst ` set d \<and>
    (\<forall>k. Entries d' k = Entries (snd (MarshalBinary srt d)) k \<and>
         mset (Entries d' k) = mset (Entries d k) \<and>
         sorted (map MinTime (Entries d' k)) \<and>
         (sorted_wrt (<) (map MinTime (Entries d k)) \<longrightarrow> Entries d' k = Entries d k))"
proof -
  from decode_encode [OF assms] obtain d' where
    d': "directIndex_UnmarshalBinary NewDirectIndex (fst (MarshalBinary srt d)) = Inr d'"
    "fst ` set d' = fst ` set d" "\<And>k. Entries d' k = srt (Entries d k)"
    by blast
  have m: "map MinTime (srt (Entries d k)) = map Less_key (srt (Entries d k))" for k
    using assms by (intro map_cong) (auto simp: go_sort_set Less_key_int64 index_ok_Entries)
  have m': "map MinTime (Entries d k) = map Less_key (Entries d k)" for k
    using assms by (intro map_cong) (auto simp: Less_key_int64 index_ok_Entries)
  have "Entries d' k = Entries (snd (MarshalBinary srt d)) k \<and>
         mset (Entries d' k) = mset (Entries d k) \<and>
         sorted (map MinTime (Entries d' k)) \<and>
         (sorted_wrt (<) (map MinTime (Entries d k)) \<longrightarrow> Entries d' k = Entries d k)" for k
    using assms(1)
    by (simp add: d'(3) MarshalBinary_Entries go_sort_mset m go_sort_sorted)
      (simp add: m' go_sort_strict_id)
  with d'(1,2) show ?thesis by blast
qed

text \<open>An instance: the index that was given the later block first.\<close>

theorem decode_encode_sorted_witness:
  "\<exists>d'. directIndex_UnmarshalBinary NewDirectIndex
          (fst (MarshalBinary (sort_key Less_key) ex_late_first)) = Inr d' \<and>
    fst ` set d' = fst ` set ex_late_first \<and>
    Entries d' ex_key = Entries (snd (MarshalBinary (sort_key Less_key) ex_late_first)) ex_key \<and>
    mset (Entries d' ex_key) = mset (Entries ex_late_first ex_key) \<and>
    sorted (map MinTime (Entries d' ex_key))"
  using decode_encode_sorted [OF go_sort_sort_key index_ok_ex_late_first] by blast

text \<open>
  C5 as stated fails: the index that was given the block of times 2 to 3 before the
  block of times 0 to 1 decodes, after encoding, with the two entries in the other
  order.
\<close>

theorem decode_encode_reorders:
  "go_sort (sort_key Less_key) \<and>
   Entries ex_late_first ex_key =
     [\<lparr>MinTime = 2, MaxTime = 3, Offset = 5, Size = 20\<rparr>,
      \<lparr>MinTime = 0, MaxTime = 1, Offset = 25, Size = 20\<rparr>] \<and>
   (\<exists>d'. directIndex_UnmarshalBinary NewDirectIndex
           (fst (MarshalBinary (sort_key Less_key) ex_late_first)) = Inr d' \<and>
         Entries d' ex_key =
           [\<lparr>MinTime = 0, MaxTime = 1, Offset = 25, Size = 20\<rparr>,
            \<lparr>MinTime = 2, MaxTime = 3, Offset = 5, Size = 20\<rparr>])"
proof -
  from decode_encode [OF go_sort_sort_key index_ok_ex_late_first] obtain d' where
    "directIndex_UnmarshalBinary NewDirectIndex
       (fst (MarshalBinary (sort_key Less_key) ex_late_first)) = Inr d'"
    "Entries d' ex_key = sort_key Less_key (Entries ex_late_first ex_key)"
    by blast
  then show ?thesis
    by (auto simp: go_sort_sort_key Entries_ex_late_first Less_key_simps)
qed

subsection \<open>Evaluating the examples\<close>

lemma be_encode_numeral:
  "be_encode (numeral k) x = be_encode (pred_numeral k) (x div 256) @ [of_nat (x mod 256)]"
  by (simp only: numeral_eq_Suc [of k] be_encode.simps)

lemma be_encode_1: "be_encode 1 x = [of_nat (x mod 256)]"
  by (simp only: One_nat_def be_encode.simps append_Nil)

lemma u32tob_MagicNumber: "u32tob MagicNumber = [22, 209, 22, 209]"
  by (simp add: u32tob_def MagicNumber_def be_encode_numeral be_encode_1)

lemma u64tob_5: "u64tob 5 = [0, 0, 0, 0, 0, 0, 0, 5]"
  by (simp add: u64tob_def be_encode_numeral be_encode_1)

lemma NewTSMWriter_ex: "NewTSMWriter ex_sink = Inr ex_writer"
  by (simp add: NewTSMWriter_def sink_Write_def ex_sink_def ex_writer_def u32tob_MagicNumber
      Version_def NewDirectIndex_def)

lemma MarshalBinary_empty: "MarshalBinary srt [] = ([], [])"
  by (simp add: MarshalBinary_def map_keys_def)

subsection \<open>The writer\<close>

text \<open>
  C7, as the code has it: a write of an empty list of values is not rejected with an
  error. The codec is invoked first and panics (``unable to encode block type''); at
  that point nothing has been written and the writer, with its index and its position,
  is as it was.
\<close>

theorem Write_empty_panics:
  "tsmWriter_Write x t k [] = (Some (Panic ''unable to encode block type''), t)"
  by (simp add: tsmWriter_Write_def Values_Encode_def)

text \<open>
  C7 as stated fails: on the writer that \<open>NewTSMWriter\<close> makes, writing the empty
  list under the key \<open>cpu\<close> ends in that panic, not in an \<open>EmptyBlock\<close> error.
\<close>

theorem Write_empty_not_EmptyBlock:
  "NewTSMWriter ex_sink = Inr ex_writer \<and>
   fst (tsmWriter_Write (ex_extern (\<lambda>b. 0)) ex_writer ex_key [])
     = Some (Panic ''unable to encode block type'') \<and>
   fst (tsmWriter_Write (ex_extern (\<lambda>b. 0)) ex_writer ex_key []) \<noteq> Some EmptyBlock"
  by (simp add: NewTSMWriter_ex tsmWriter_Write_def Values_Encode_def)

lemma Close_unfold:
  "tsmWriter_Close srt t =
     (if sink_ok (tw_w t)
      then (None, t\<lparr>tw_w := (tw_w t)\<lparr>sink_data := sink_data (tw_w t) @
              fst (MarshalBinary srt (tw_index t)) @ u64tob (tw_n t)\<rparr>,
            tw_index := snd (MarshalBinary srt (tw_index t))\<rparr>)
      else (Some (Err ''write failed''),
            t\<lparr>tw_index := snd (MarshalBinary srt (tw_index t))\<rparr>))"
  by (simp add: tsmWriter_Close_def sink_Write_def Let_def split: prod.splits)

text \<open>
  C8, as the code has it: the writer has no closed state. After a \<open>Close\<close> that
  succeeded, another \<open>Close\<close> succeeds and appends the index and the index position
  once more, and a \<open>Write\<close> of values that the codec encodes succeeds and appends the
  checksum and the block.
\<close>

theorem Close_leaves_writer_open:
  assumes "tsmWriter_Close srt t = (None, t')"
  shows "fst (tsmWriter_Close srt t') = None \<and>
    sink_data (tw_w (snd (tsmWriter_Close srt t')))
      = sink_data (tw_w t') @ fst (MarshalBinary srt (tw_index t')) @ u64tob (tw_n t') \<and>
    (\<forall>x k vals block. Values_Encode x vals = Inr block \<longrightarrow>
       fst (tsmWriter_Write x t' k vals) = None \<and>
       sink_data (tw_w (snd (tsmWriter_Write x t' k vals)))
         = sink_data (tw_w t') @ u32tob (ChecksumIEEE x block) @ block)"
proof -
  from assms have ok: "sink_ok (tw_w t)"
    by (simp add: Close_unfold split: if_splits)
  with assms have t': "t' = t\<lparr>tw_w := (tw_w t)\<lparr>sink_data := sink_data (tw_w t) @
              fst (MarshalBinary srt (tw_index t)) @ u64tob (tw_n t)\<rparr>,
            tw_index := snd (MarshalBinary srt (tw_index t))\<rparr>"
    by (simp add: Close_unfold)
  have ok': "sink_ok (tw_w t')" using ok by (simp add: t')
  have c: "fst (tsmWriter_Close srt t') = None \<and>
    sink_data (tw_w (snd (tsmWriter_Close srt t')))
      = sink_data (tw_w t') @ fst (MarshalBinary srt (tw_index t')) @ u64tob (tw_n t')"
    using ok' by (simp add: Close_unfold)
  have w: "fst (tsmWriter_Write x t' k vals) = None \<and>
       sink_data (tw_w (snd (tsmWriter_Write x t' k vals)))
         = sink_data (tw_w t') @ u32tob (ChecksumIEEE x block) @ block"
    if "Values_Encode x vals = Inr block" for x k vals block
  proof -
    from that have "vals \<noteq> []" by (auto simp: Values_Encode_def)
    then obtain v vs where "vals = v # vs" by (cases vals) auto
    with that ok' show ?thesis
      by (simp add: tsmWriter_Write_def sink_Write_def)
  qed
  from c w show ?thesis by blast
qed

text \<open>An instance: closing the new writer, then writing one value.\<close>

theorem Close_leaves_writer_open_witness:
  "tsmWriter_Close (sort_key Less_key) ex_writer
     = (None, ex_writer\<lparr>tw_w := \<lparr>sink_data = [22, 209, 22, 209, 1, 0, 0, 0, 0, 0, 0, 0, 5],
                                  sink_ok = True\<rparr>\<rparr>) \<and>
   fst (tsmWriter_Write (ex_extern (\<lambda>b. 0))
          (ex_writer\<lparr>tw_w := \<lparr>sink_data = [22, 209, 22, 209, 1, 0, 0, 0, 0, 0, 0, 0, 5],
                                sink_ok = True\<rparr>\<rparr>) ex_key [Int64Value 0 1]) = None"
proof -
  have c: "tsmWriter_Close (sort_key Less_key) ex_writer
     = (None, ex_writer\<lparr>tw_w := \<lparr>sink_data = [22, 209, 22, 209, 1, 0, 0, 0, 0, 0, 0, 0, 5],
                                  sink_ok = True\<rparr>\<rparr>)"
    by (simp add: Close_unfold ex_writer_def MarshalBinary_empty u64tob_5)
  have e: "Values_Encode (ex_extern (\<lambda>b. 0)) [Int64Value 0 1]
      = Inr (u64tob (UnixNano 0) @ [1] @ u64tob 1)"
    by (simp add: Values_Encode_def ex_extern_def ex_encode_def)
  from Close_leaves_writer_open [OF c] e c show ?thesis by blast
qed

text \<open>
  C8 as stated fails: closing the new writer twice returns no error either time, and
  the second call appends eight more bytes to the thirteen of the first.
\<close>

theorem Close_twice_no_WriterClosed:
  "NewTSMWriter ex_sink = Inr ex_writer \<and>
   tsmWriter_Close (sort_key Less_key) ex_writer
     = (None, ex_writer\<lparr>tw_w := \<lparr>sink_data = [22, 209, 22, 209, 1, 0, 0, 0, 0, 0, 0, 0, 5],
                                  sink_ok = True\<rparr>\<rparr>) \<and>
   tsmWriter_Close (sort_key Less_key)
       (ex_writer\<lparr>tw_w := \<lparr>sink_data = [22, 209, 22, 209, 1, 0, 0, 0, 0, 0, 0, 0, 5],
                             sink_ok = True\<rparr>\<rparr>)
     = (None, ex_writer\<lparr>tw_w :=
          \<lparr>sink_data = [22, 209, 22, 209, 1, 0, 0, 0, 0, 0, 0, 0, 5, 0, 0, 0, 0, 0, 0, 0, 5],
           sink_ok = True\<rparr>\<rparr>)"
  by (simp add: NewTSMWriter_ex Close_unfold ex_writer_def MarshalBinary_empty u64tob_5)

lemma init_char:
  assumes "8 \<le> length data"
  shows "tsmReader_init \<lparr>src_data = data, src_pos = p\<rparr> =
    (let indexStart = sint (word_of_nat (be_decode (drop (length data - 8) data)) :: 64 word);
         n = nat (int (length data) - 8 - indexStart)
     in if indexStart < 0 then Inl (Err ''init: failed to seek to index'')
        else if int (length data) - 8 - indexStart < 0
          then Inl (Panic ''makeslice: len out of range'')
        else
          (case wrapErr ''init: unmarshal error''
                  (directIndex_UnmarshalBinary NewDirectIndex
                     (take n (drop (nat indexStart) data))) of
             Inl e \<Rightarrow> Inl e
           | Inr d \<Rightarrow>
               Inr \<lparr>tr_r = \<lparr>src_data = data, src_pos = int (length data) - 8\<rparr>,
                    tr_indexStart = indexStart, tr_indexEnd = int (length data) - 8,
                    tr_index = d\<rparr>))"
proof -
  define footer where "footer = drop (length data - 8) data"
  define indexStart where "indexStart = sint (word_of_nat (be_decode footer) :: 64 word)"
  define n where "n = nat (int (length data) - 8 - indexStart)"
  have lf: "length footer = 8" using assms by (simp add: footer_def)
  have s1: "source_Seek \<lparr>src_data = data, src_pos = p\<rparr> 0 SEEK_END
      = (Inr (int (length data)), \<lparr>src_data = data, src_pos = int (length data)\<rparr>)"
    by (simp add: source_Seek_def Let_def)
  have s2: "source_Seek \<lparr>src_data = data, src_pos = int (length data)\<rparr> (- 8) SEEK_END
      = (Inr (int (length data) - 8), \<lparr>src_data = data, src_pos = int (length data) - 8\<rparr>)"
    using assms by (simp add: source_Seek_def Let_def)
  have "nat (int (length data) - 8) = length data - 8" by simp
  then have r1: "source_Read \<lparr>src_data = data, src_pos = int (length data) - 8\<rparr> 8
      = (Inr footer, \<lparr>src_data = data, src_pos = int (length data)\<rparr>)"
    using assms by (simp add: source_Read_def footer_def Let_def)
  have b: "btou64 (footer @ replicate (8 - length footer) 0) = Inr (word_of_nat (be_decode footer))"
    using lf by (simp add: btou64_def)
  show ?thesis
  proof (cases "indexStart < 0")
    case True
    then have s3: "source_Seek \<lparr>src_data = data, src_pos = int (length data)\<rparr> indexStart SEEK_SET
        = (Inl (Err ''negative position''), \<lparr>src_data = data, src_pos = int (length data)\<rparr>)"
      by (simp add: source_Seek_def Let_def)
    from True show ?thesis
      unfolding tsmReader_init_def
      by (simp add: s1 s2 r1 b s3 Let_def flip: footer_def indexStart_def)
  next
    case nonneg: False
    have s3: "source_Seek \<lparr>src_data = data, src_pos = int (length data)\<rparr> indexStart SEEK_SET
        = (Inr indexStart, \<lparr>src_data = data, src_pos = indexStart\<rparr>)"
      using nonneg by (simp add: source_Seek_def Let_def)
    show ?thesis
    proof (cases "int (length data) - 8 - indexStart < 0")
      case True
      then show ?thesis
        unfolding tsmReader_init_def using nonneg
        by (simp add: s1 s2 r1 b s3 Let_def flip: footer_def indexStart_def)
    next
      case False
      define ibs where "ibs = take n (drop (nat indexStart) data)"
      have len: "length ibs = n"
        using False nonneg by (simp add: ibs_def n_def)
      have r2: "source_Read \<lparr>src_data = data, src_pos = indexStart\<rparr> n
          = (Inr ibs, \<lparr>src_data = data, src_pos = int (length data) - 8\<rparr>)"
      proof (cases "n = 0")
        case True
        with False have "indexStart = int (length data) - 8" by (simp add: n_def)
        with True show ?thesis by (simp add: source_Read_def ibs_def)
      next
        case nz: False
        then have "indexStart < int (length data)" by (simp add: n_def)
        moreover have "indexStart + int n = int (length data) - 8"
          using False by (simp add: n_def)
        ultimately show ?thesis
          using nz len by (simp add: source_Read_def Let_def flip: ibs_def)
      qed
      show ?thesis
        unfolding tsmReader_init_def using nonneg False
        by (simp add: s1 s2 r1 b s3 r2 len Let_def
            flip: footer_def indexStart_def n_def ibs_def split: sum.splits)
    qed
  qed
qed

lemma init_short:
  "length data < 8 \<Longrightarrow>
   tsmReader_init \<lparr>src_data = data, src_pos = p\<rparr> = Inl (Err ''init: failed to seek to index ptr'')"
  by (simp add: tsmReader_init_def source_Seek_def Let_def)

lemma unmarshal_empty: "directIndex_UnmarshalBinary d [] = Inr d"
  unfolding directIndex_UnmarshalBinary_def by (subst unmarshalFrom.simps) simp

lemma sint_of_nat64: "n < 9223372036854775808 \<Longrightarrow> sint (word_of_nat n :: 64 word) = int n"
  by (simp add: signed_of_nat signed_take_bit_int_eq_self)

lemma be_decode_u64tob: "be_decode (u64tob w) = unat w"
proof -
  have "unat w < 256 ^ 8" using unsigned_less [of w, where ?'a = nat] by simp
  then show ?thesis by (simp add: u64tob_def be_decode_encode del: be_encode.simps)
qed

lemma init_file:
  assumes "length pre < 9223372036854775808"
    and "\<forall>(k, es) \<in> set recs. length k < 65536 \<and> length es < 65536"
  shows "tsmReader_init
      \<lparr>src_data = pre @ records_bytes recs @ u64tob (of_nat (length pre)), src_pos = p\<rparr>
    = Inr \<lparr>tr_r = \<lparr>src_data = pre @ records_bytes recs @ u64tob (of_nat (length pre)),
                    src_pos = int (length pre + length (records_bytes recs))\<rparr>,
           tr_indexStart = int (length pre),
           tr_indexEnd = int (length pre + length (records_bytes recs)),
           tr_index = decoded [] recs\<rparr>"
proof -
  let ?file = "pre @ records_bytes recs @ u64tob (of_nat (length pre))"
  have l: "8 \<le> length ?file" by simp
  have f: "drop (length ?file - 8) ?file = u64tob (of_nat (length pre))" by simp
  have i: "sint (word_of_nat (be_decode (u64tob (of_nat (length pre)))) :: 64 word)
      = int (length pre)"
    using assms(1) by (simp add: be_decode_u64tob sint_of_nat64)
  have u: "directIndex_UnmarshalBinary NewDirectIndex (records_bytes recs)
      = Inr (decoded [] recs)"
    using unmarshalFrom_records [OF assms(2), of "[]" "[]"]
    by (simp add: directIndex_UnmarshalBinary_def NewDirectIndex_def)
  show ?thesis
    by (subst init_char [OF l]) (simp only: f i Let_def, simp add: u)
qed

subsection \<open>The reader\<close>

text \<open>
  C9, as the code has it: opening reads the last eight bytes and the index they point
  to, and never the first five bytes. If a source opens, and its index starts at or
  after byte 5, then the source with any other five bytes in place of the first five
  opens too, with the same index and the same index bounds.
\<close>

theorem init_ignores_header:
  assumes "length h = 5" and "length h' = 5"
    and "tsmReader_init \<lparr>src_data = h @ rest, src_pos = p\<rparr> = Inr t"
    and "5 \<le> tr_indexStart t"
  shows "\<exists>t'. tsmReader_init \<lparr>src_data = h' @ rest, src_pos = p'\<rparr> = Inr t' \<and>
    tr_index t' = tr_index t \<and> tr_indexStart t' = tr_indexStart t \<and>
    tr_indexEnd t' = tr_indexEnd t"
proof -
  have l8: "8 \<le> length (h @ rest)"
  proof (rule ccontr)
    assume "\<not> 8 \<le> length (h @ rest)"
    then have "length (h @ rest) < 8" by simp
    from init_short [OF this] assms(3) show False by simp
  qed
  then have l8': "8 \<le> length (h' @ rest)" using assms(1,2) by simp
  define footer where "footer = drop (length (h @ rest) - 8) (h @ rest)"
  define indexStart where "indexStart = sint (word_of_nat (be_decode footer) :: 64 word)"
  define n where "n = nat (int (length (h @ rest)) - 8 - indexStart)"
  define ibs where "ibs = take n (drop (nat indexStart) (h @ rest))"
  note c = init_char [OF l8, of p, unfolded Let_def, folded footer_def, folded indexStart_def,
      folded n_def, folded ibs_def]
  from assms(3) have nonneg: "\<not> indexStart < 0"
    and fits: "\<not> int (length (h @ rest)) - 8 - indexStart < 0"
    unfolding c by (auto split: if_splits)
  with assms(3) obtain d where
    d: "wrapErr ''init: unmarshal error'' (directIndex_UnmarshalBinary NewDirectIndex ibs) = Inr d"
    and t: "t = \<lparr>tr_r = \<lparr>src_data = h @ rest, src_pos = int (length (h @ rest)) - 8\<rparr>,
                 tr_indexStart = indexStart, tr_indexEnd = int (length (h @ rest)) - 8,
                 tr_index = d\<rparr>"
    unfolding c by (auto split: sum.splits)
  from assms(4) t have i5: "5 \<le> indexStart" by simp
  with fits have l13: "13 \<le> length (h @ rest)" by simp
  have footer': "drop (length (h' @ rest) - 8) (h' @ rest) = footer"
    using l13 assms(1,2) by (simp add: footer_def)
  have ibs': "take n (drop (nat indexStart) (h' @ rest)) = ibs"
    using i5 assms(1,2) by (simp add: ibs_def)
  have len: "length (h' @ rest) = length (h @ rest)" using assms(1,2) by simp
  note c' = init_char [OF l8', of p', unfolded Let_def footer', folded indexStart_def,
      unfolded len, folded n_def, unfolded ibs']
  have "tsmReader_init \<lparr>src_data = h' @ rest, src_pos = p'\<rparr>
      = Inr \<lparr>tr_r = \<lparr>src_data = h' @ rest, src_pos = int (length (h @ rest)) - 8\<rparr>,
             tr_indexStart = indexStart, tr_indexEnd = int (length (h @ rest)) - 8,
             tr_index = d\<rparr>"
    unfolding c' using nonneg fits by (simp only: if_False d sum.case)
  with t show ?thesis by simp
qed

lemma init_bad_magic:
  "tsmReader_init \<lparr>src_data = [0, 0, 0, 0, 0, 0, 0, 0, 0, 0, 0, 0, 5], src_pos = 0\<rparr>
     = Inr \<lparr>tr_r = \<lparr>src_data = [0, 0, 0, 0, 0, 0, 0, 0, 0, 0, 0, 0, 5], src_pos = 5\<rparr>,
            tr_indexStart = 5, tr_indexEnd = 5, tr_index = []\<rparr>"
  by (subst init_char) (simp_all add: be_decode_def unmarshal_empty NewDirectIndex_def)

lemma init_good_magic:
  "tsmReader_init \<lparr>src_data = [22, 209, 22, 209, 1, 0, 0, 0, 0, 0, 0, 0, 5], src_pos = 0\<rparr>
     = Inr \<lparr>tr_r = \<lparr>src_data = [22, 209, 22, 209, 1, 0, 0, 0, 0, 0, 0, 0, 5], src_pos = 5\<rparr>,
            tr_indexStart = 5, tr_indexEnd = 5, tr_index = []\<rparr>"
  by (subst init_char) (simp_all add: be_decode_def unmarshal_empty NewDirectIndex_def)

text \<open>An instance: the file of an empty writer, its header replaced by zeros.\<close>

theorem init_ignores_header_witness:
  "\<exists>t'. tsmReader_init \<lparr>src_data = [0, 0, 0, 0, 0] @ [0, 0, 0, 0, 0, 0, 0, 5], src_pos = 0\<rparr>
          = Inr t' \<and>
     tr_index t' = [] \<and> tr_indexStart t' = 5 \<and> tr_indexEnd t' = 5"
  using init_ignores_header [of "[22, 209, 22, 209, 1]" "[0, 0, 0, 0, 0]"
      "[0, 0, 0, 0, 0, 0, 0, 5]" 0 _ 0] init_good_magic
  by simp

text \<open>
  C9 as stated fails: thirteen bytes whose first four are zero, not the magic number,
  and whose last eight hold the position 5, open as a reader with an empty index.
\<close>

theorem bad_magic_opens:
  "take 4 [0, 0, 0, 0, 0, 0, 0, 0, 0, 0, 0, 0, 5] \<noteq> u32tob MagicNumber \<and>
   NewTSMReader \<lparr>src_data = [0, 0, 0, 0, 0, 0, 0, 0, 0, 0, 0, 0, 5], src_pos = 0\<rparr>
     = Inr \<lparr>tr_r = \<lparr>src_data = [0, 0, 0, 0, 0, 0, 0, 0, 0, 0, 0, 0, 5], src_pos = 5\<rparr>,
            tr_indexStart = 5, tr_indexEnd = 5, tr_index = []\<rparr>"
  by (simp add: NewTSMReader_def init_bad_magic u32tob_MagicNumber)

lemma subslice_suffix:
  "length c = 4 \<Longrightarrow> subslice (c @ ys) 4 (int (length (c @ ys))) = Inr ys"
  by (simp add: subslice_def)

lemma readBlock_ok:
  assumes "points_to x (src_data r) e vs"
  shows "\<exists>blen' r'. readBlock x r blen e = (Inr (vs, blen'), r') \<and> src_data r' = src_data r"
proof -
  from assms obtain pre c blk rest where
    f: "src_data r = pre @ c @ blk @ rest" and c: "length c = 4"
    and off: "sint (Offset e) = int (length pre)" and sz: "unat (Size e) = 4 + length blk"
    and dec: "\<And>junk. DecodeBlock x (blk @ junk) = Inr vs"
    unfolding points_to_def by blast
  define blen' where "blen' = (if unat (Size e) > blen then unat (Size e) else blen)"
  define r1 where "r1 = r\<lparr>src_pos := int (length pre)\<rparr>"
  have b: "4 + length blk \<le> blen'" using sz by (simp add: blen'_def)
  have s: "source_Seek r (sint (Offset e)) SEEK_SET = (Inr (int (length pre)), r1)"
    by (simp add: source_Seek_def off Let_def r1_def)
  define bs where "bs = take blen' (drop (length pre) (src_data r))"
  have bs: "bs = c @ blk @ take (blen' - (4 + length blk)) rest"
    using b c by (simp add: bs_def f)
  define r2 where "r2 = r1\<lparr>src_pos := src_pos r1 + int (length bs)\<rparr>"
  have rd: "source_Read r1 blen' = (Inr bs, r2)"
    using b c by (simp add: source_Read_def r1_def f Let_def bs_def r2_def)
  have sl: "subslice bs 4 (int (length bs)) = Inr (blk @ take (blen' - (4 + length blk)) rest)"
    unfolding bs by (rule subslice_suffix [OF c])
  have "readBlock x r blen e = (Inr (vs, blen'), r2)"
    by (simp add: readBlock_def s Let_def rd sl dec flip: blen'_def)
  moreover have "src_data r2 = src_data r" by (simp add: r2_def r1_def)
  ultimately show ?thesis by blast
qed

lemma readBlocks_ok:
  "list_all2 (points_to x (src_data r)) es vss \<Longrightarrow>
   \<exists>r'. readBlocks x r blen es acc = (Inr (acc @ concat vss), r')"
proof (induction es arbitrary: r blen acc vss)
  case Nil
  then show ?case by simp
next
  case (Cons e es)
  then obtain vs vss' where vss: "vss = vs # vss'" and p: "points_to x (src_data r) e vs"
    and rest: "list_all2 (points_to x (src_data r)) es vss'"
    by (auto simp: list_all2_Cons1)
  from readBlock_ok [OF p, of blen] obtain blen' r' where
    rb: "readBlock x r blen e = (Inr (vs, blen'), r')" and d: "src_data r' = src_data r"
    by blast
  from Cons.IH [of r' vss' blen' "acc @ vs"] rest d obtain r'' where
    "readBlocks x r' blen' es (acc @ vs) = (Inr ((acc @ vs) @ concat vss'), r'')"
    by auto
  then show ?case by (simp add: rb vss)
qed

lemma ReadAll_ok:
  assumes "list_all2 (points_to x (src_data (tr_r t))) (Entries (tr_index t) k) vss"
  shows "fst (tsmReader_ReadAll x t k) = Inr (concat vss)"
proof (cases "Entries (tr_index t) k = []")
  case True
  with assms show ?thesis by (simp add: tsmReader_ReadAll_def)
next
  case False
  from readBlocks_ok [OF assms, of "16 * 1024" "[]"] obtain r' where
    "readBlocks x (tr_r t) (16 * 1024) (Entries (tr_index t) k) [] = (Inr (concat vss), r')"
    by auto
  with False show ?thesis by (simp add: tsmReader_ReadAll_def Let_def)
qed

lemma u32tob_inj: "u32tob a = u32tob b \<Longrightarrow> a = b"
  using btou32_u32tob [of a "[]"] btou32_u32tob [of b "[]"] by simp

lemma time_Unix_UnixNano: "int64_time t \<Longrightarrow> time_Unix (UnixNano t) = t"
  by (simp add: time_Unix_def UnixNano_def int64_time_def sint_sbintrunc'
      signed_take_bit_int_eq_self)

lemma ex_decode_block:
  "DecodeBlock (ex_extern crc) ((u64tob (UnixNano t) @ [1] @ u64tob v) @ junk)
     = Inr [Int64Value (time_Unix (UnixNano t)) v]"
proof -
  let ?a = "u64tob (UnixNano t)" and ?b = "u64tob v"
  let ?blk = "?a @ 1 # ?b @ junk"
  have l: "\<not> length ?blk \<le> 9" by simp
  have nth: "?blk ! 8 = 1"
    by (simp add: nth_append)
  have s1: "subslice ?blk 0 8 = Inr ?a"
    using subslice_prefix [of ?a 8] by simp
  have s2: "subslice ?blk 9 17 = Inr ?b"
    using subslice_mid [of "?a @ [1]" 9 ?b 8 junk] by simp
  have b64: "btou64 (u64tob w) = Inr w" for w
    using btou64_u64tob [of w "[]"] by simp
  have "DecodeBlock (ex_extern crc) ?blk = Inr [Int64Value (time_Unix (UnixNano t)) v]"
    unfolding DecodeBlock_def encodedBlockHeaderSize_def Let_def nth
    by (simp only: l if_False)
      (simp add: ex_extern_def ex_decode_def s1 s2 b64 del: length_append)
  then show ?thesis by simp
qed

lemma ex_encode_block:
  "Values_Encode (ex_extern crc) [Int64Value t v] = Inr (u64tob (UnixNano t) @ [1] @ u64tob v)"
  by (simp add: Values_Encode_def ex_extern_def ex_encode_def)

text \<open>
  C4, where the code leaves undone what it notes to do: \<open>Read\<close> should verify the four checksum
  bytes of a block against its payload and report a mismatch. In the example file the
  stored checksum differs from the checksum of the block, whatever the checksum
  function is; the reader opens the file, finds the entry for time 0, and \<open>Read\<close>
  returns the decoded value: the checksum is never looked at.
\<close>

theorem Read_skips_checksum:
  "u32tob (crc ex_block + 1) \<noteq> u32tob (ChecksumIEEE (ex_extern crc) ex_block) \<and>
   (\<exists>t. NewTSMReader \<lparr>src_data = ex_corrupt_file crc, src_pos = 0\<rparr> = Inr t \<and>
        Entry (tr_index t) ex_key 0 = Some ex_entry \<and>
        fst (tsmReader_Read (ex_extern crc) t ex_key 0) = Inr [Int64Value 0 1])"
proof -
  let ?pre = "[22, 209, 22, 209, 1] @ u32tob (crc ex_block + 1) @ ex_block"
  let ?recs = "[(ex_key, [ex_entry])]"
  let ?file = "?pre @ records_bytes ?recs @ u64tob (of_nat (length ?pre))"
  define t where "t = \<lparr>tr_r = \<lparr>src_data = ?file,
                    src_pos = int (length ?pre + length (records_bytes ?recs))\<rparr>,
           tr_indexStart = int (length ?pre),
           tr_indexEnd = int (length ?pre + length (records_bytes ?recs)),
           tr_index = decoded [] ?recs\<rparr>"
  have lp: "length ?pre = 26" by (simp add: ex_block_def)
  have fe: "ex_corrupt_file crc = ?file"
    by (simp only: ex_corrupt_file_def lp) simp
  have "tsmReader_init \<lparr>src_data = ?file, src_pos = 0\<rparr> = Inr t"
    unfolding t_def
    by (rule init_file) (simp_all add: ex_key_def ex_block_def)
  then have i: "NewTSMReader \<lparr>src_data = ex_corrupt_file crc, src_pos = 0\<rparr> = Inr t"
    by (simp only: NewTSMReader_def fe)
  have w: "wire_entry ex_entry = ex_entry"
    by (simp add: wire_entry_id ex_entry_def int64_time_def)
  have es: "Entries (tr_index t) ex_key = [ex_entry]"
    by (simp add: t_def decoded_def addEntries_def Entries_def w)
  then have en: "Entry (tr_index t) ex_key 0 = Some ex_entry"
    by (simp add: Entry_def Contains_def ex_entry_def)
  have "points_to (ex_extern crc) (src_data (tr_r t)) ex_entry
      [Int64Value (time_Unix (UnixNano 0)) 1]"
    unfolding points_to_def
  proof (intro exI conjI allI)
    show "src_data (tr_r t) = [22, 209, 22, 209, 1] @ u32tob (crc ex_block + 1) @ ex_block @
        (records_bytes ?recs @ u64tob 26)"
      using fe by (simp add: t_def ex_corrupt_file_def)
    show "length (u32tob (crc ex_block + 1)) = 4" by simp
    show "sint (Offset ex_entry) = int (length [22, 209, 22, 209, 1 :: byte])"
      by (simp add: ex_entry_def)
    show "unat (Size ex_entry) = 4 + length ex_block"
      by (simp add: ex_entry_def ex_block_def)
    show "DecodeBlock (ex_extern crc) (ex_block @ junk) = Inr [Int64Value (time_Unix (UnixNano 0)) 1]"
      for junk
      unfolding ex_block_def by (rule ex_decode_block)
  qed
  from readBlock_ok [OF this, of "16 * 1024"] obtain blen' r' where
    "readBlock (ex_extern crc) (tr_r t) (16 * 1024) ex_entry
       = (Inr ([Int64Value (time_Unix (UnixNano 0)) 1], blen'), r')"
    by blast
  then have rd: "fst (tsmReader_Read (ex_extern crc) t ex_key 0) = Inr [Int64Value 0 1]"
    by (simp add: tsmReader_Read_def en time_Unix_UnixNano int64_time_def)
  have "u32tob (crc ex_block + 1) \<noteq> u32tob (ChecksumIEEE (ex_extern crc) ex_block)"
    by (auto simp: ex_extern_def dest: u32tob_inj)
  with i en rd show ?thesis by blast
qed

subsection \<open>The indirect index\<close>

lemma int32_id: "- 2147483648 \<le> x \<Longrightarrow> x < 2147483648 \<Longrightarrow> int32 x = x"
  by (simp add: int32_def)

lemma records_bytes_Cons: "records_bytes ((k, es) # recs) = key_record k es @ records_bytes recs"
  by (simp add: records_bytes_def)

lemma records_bytes_append: "records_bytes (xs @ ys) = records_bytes xs @ records_bytes ys"
  by (simp add: records_bytes_def)

lemma subslice_at:
  "lo = int (length p) \<Longrightarrow> hi = lo + int (length a) \<Longrightarrow> subslice (p @ a @ r) lo hi = Inr a"
  by (simp add: subslice_def)

lemma btou16_u16tob': "btou16 (u16tob v) = Inr v"
  using btou16_u16tob [of v "[]"] by simp

lemma indirect_scan_records:
  assumes "\<forall>(k, es) \<in> set recs. length k < 65536 \<and> length es < 65536"
    and "length (pre @ records_bytes recs) < 2147483648"
  shows "indirect_scan (pre @ records_bytes recs) (int (length pre)) offs
    = Inr (offs @ offsets_from (length pre) recs)"
  using assms
proof (induction recs arbitrary: pre offs)
  case Nil
  have "int32 (int (length pre)) = int (length pre)"
    using Nil.prems(2) by (intro int32_id) (simp_all add: records_bytes_def)
  then show ?case
    by (subst indirect_scan.simps) (simp add: records_bytes_def)
next
  case (Cons r recs)
  obtain k es where r: "r = (k, es)" by (cases r)
  from Cons.prems r have bk: "length k < 65536" and be: "length es < 65536" by auto
  let ?rest = "records_bytes recs"
  let ?b = "pre @ records_bytes (r # recs)"
  let ?i = "int (length pre)"
  have b: "?b = pre @ key_record k es @ ?rest"
    by (simp add: r records_bytes_Cons)
  have lr: "length (records_bytes (r # recs)) = 4 + length k + 28 * length es + length ?rest"
    by (simp add: r records_bytes_Cons length_key_record)
  have lb: "length ?b = length pre + (4 + length k + 28 * length es) + length ?rest"
    by (simp add: lr)
  have small: "length ?b < 2147483648" using Cons.prems(2) .
  have c0: "int32 (int (length ?b)) = int (length ?b)"
    using small by (intro int32_id) simp_all
  have lt: "?i < int32 (int (length ?b))"
    unfolding c0 by (simp add: lr)
  have c1: "int32 (?i + 2) = ?i + 2"
    using small lb by (intro int32_id) simp_all
  have b1: "?b = pre @ u16tob (of_nat (length k)) @ (k @ u16tob (of_nat (length es)) @
      concat (map marshalEntry es) @ ?rest)"
    by (simp add: b key_record_def)
  have "subslice (pre @ u16tob (of_nat (length k)) @ (k @ u16tob (of_nat (length es)) @
      concat (map marshalEntry es) @ ?rest)) ?i (?i + 2) = Inr (u16tob (of_nat (length k)))"
    by (rule subslice_at) simp_all
  then have s1: "bindE (subslice ?b ?i (int32 (?i + 2))) btou16 = Inr (of_nat (length k))"
    unfolding c1 b1 by (simp only: bindE_Inr btou16_u16tob')
  have c2: "int32 (int32 (?i + 2) + int (unat (of_nat (length k) :: 16 word)))
      = ?i + 2 + int (length k)"
    unfolding c1 using small lb bk by (subst int32_id) (simp_all add: unat_of_nat16)
  have c3: "int32 (?i + 2 + int (length k) + 2) = ?i + 2 + int (length k) + 2"
    using small lb by (intro int32_id) simp_all
  have b2: "?b = (pre @ u16tob (of_nat (length k)) @ k) @ u16tob (of_nat (length es)) @
      (concat (map marshalEntry es) @ ?rest)"
    by (simp add: b key_record_def)
  have "subslice ((pre @ u16tob (of_nat (length k)) @ k) @ u16tob (of_nat (length es)) @
      (concat (map marshalEntry es) @ ?rest)) (?i + 2 + int (length k))
      (?i + 2 + int (length k) + 2) = Inr (u16tob (of_nat (length es)))"
    by (rule subslice_at) simp_all
  then have s2: "bindE (subslice ?b (?i + 2 + int (length k))
      (?i + 2 + int (length k) + 2)) btou16 = Inr (of_nat (length es))"
    unfolding b2 by (simp only: bindE_Inr btou16_u16tob')
  have c4: "int32 (int (unat (of_nat (length es) :: 16 word)) * int indexEntrySize)
      = 28 * int (length es)"
    using be by (subst int32_id) (simp_all add: unat_of_nat16 indexEntrySize_def)
  have c5: "int32 (?i + 2 + int (length k) + 2 + 28 * int (length es))
      = int (length (pre @ key_record k es))"
    using small lb by (subst int32_id) (simp_all add: length_key_record)
  have e1: "?b = (pre @ key_record k es) @ ?rest"
    by (simp add: b)
  have bnd: "\<forall>(k, es) \<in> set recs. length k < 65536 \<and> length es < 65536"
    using Cons.prems(1) by simp
  have ih: "indirect_scan ?b (int (length (pre @ key_record k es))) (offs @ [?i])
      = Inr ((offs @ [?i]) @ offsets_from (length (pre @ key_record k es)) recs)"
    unfolding e1 using small by (intro Cons.IH [OF bnd]) (simp add: lr length_key_record)
  show ?case
    by (subst indirect_scan.simps)
      (simp only: lt if_True s1 sum.case Let_def c2 s2 c3 c4 c5 ih,
        simp add: r)
qed

lemma Search_loop_correct:
  assumes "\<forall>h. i \<le> h \<and> h < j \<longrightarrow> f h = Inr (P h)"
    and "\<forall>a b. i \<le> a \<and> a \<le> b \<and> b < j \<longrightarrow> P a \<longrightarrow> P b"
    and "i \<le> j"
  shows "\<exists>r. Search_loop f i j = Inr r \<and> i \<le> r \<and> r \<le> j \<and>
    (\<forall>h. i \<le> h \<and> h < r \<longrightarrow> \<not> P h) \<and> (\<forall>h. r \<le> h \<and> h < j \<longrightarrow> P h)"
  using assms
proof (induction f i j rule: Search_loop.induct)
  case (1 f i j)
  show ?case
  proof (cases "i < j")
    case False
    with "1.prems" have "i = j" by simp
    then show ?thesis
      by (subst Search_loop.simps) auto
  next
    case True
    define h where "h = i + (j - i) div 2"
    have hr: "i \<le> h" "h < j" using True unfolding h_def by linarith+
    then have fh: "f h = Inr (P h)" using "1.prems"(1) by blast
    show ?thesis
    proof (cases "P h")
      case ph: False
      have "\<exists>r. Search_loop f (h + 1) j = Inr r \<and> h + 1 \<le> r \<and> r \<le> j \<and>
          (\<forall>h'. h + 1 \<le> h' \<and> h' < r \<longrightarrow> \<not> P h') \<and> (\<forall>h'. r \<le> h' \<and> h' < j \<longrightarrow> P h')"
      proof (rule "1.IH"(1) [OF True h_def fh])
        show "\<not> P h" by fact
        show "\<forall>h'. h + 1 \<le> h' \<and> h' < j \<longrightarrow> f h' = Inr (P h')"
        proof (intro allI impI)
          fix h' assume "h + 1 \<le> h' \<and> h' < j"
          then have "i \<le> h' \<and> h' < j" using hr by simp
          with "1.prems"(1) show "f h' = Inr (P h')" by blast
        qed
        show "\<forall>a b. h + 1 \<le> a \<and> a \<le> b \<and> b < j \<longrightarrow> P a \<longrightarrow> P b"
        proof (intro allI impI)
          fix a b assume "h + 1 \<le> a \<and> a \<le> b \<and> b < j" and pa: "P a"
          then have "i \<le> a \<and> a \<le> b \<and> b < j" using hr by simp
          with "1.prems"(2) pa show "P b" by blast
        qed
        show "h + 1 \<le> j" using hr by simp
      qed
      then obtain r where r: "Search_loop f (h + 1) j = Inr r" "h + 1 \<le> r" "r \<le> j"
        "\<forall>h'. h + 1 \<le> h' \<and> h' < r \<longrightarrow> \<not> P h'" "\<forall>h'. r \<le> h' \<and> h' < j \<longrightarrow> P h'"
        by blast
      have low: "\<not> P h'" if "i \<le> h'" "h' < r" for h'
      proof (cases "h' \<le> h")
        case True
        show ?thesis
        proof
          assume "P h'"
          moreover have "i \<le> h' \<and> h' \<le> h \<and> h < j" using that True hr by simp
          ultimately have "P h" using "1.prems"(2) by blast
          with ph show False by simp
        qed
      next
        case False
        with r(4) that show ?thesis by simp
      qed
      have "Search_loop f i j = Inr r"
        using True fh ph r(1)
        by (subst Search_loop.simps) (simp add: Let_def flip: h_def)
      with r hr low show ?thesis by auto
    next
      case ph: True
      have "\<exists>r. Search_loop f i h = Inr r \<and> i \<le> r \<and> r \<le> h \<and>
          (\<forall>h'. i \<le> h' \<and> h' < r \<longrightarrow> \<not> P h') \<and> (\<forall>h'. r \<le> h' \<and> h' < h \<longrightarrow> P h')"
      proof (rule "1.IH"(2) [OF True h_def fh])
        show "\<not> \<not> P h" using ph by simp
        show "\<forall>h'. i \<le> h' \<and> h' < h \<longrightarrow> f h' = Inr (P h')"
        proof (intro allI impI)
          fix h' assume "i \<le> h' \<and> h' < h"
          then have "i \<le> h' \<and> h' < j" using hr by simp
          with "1.prems"(1) show "f h' = Inr (P h')" by blast
        qed
        show "\<forall>a b. i \<le> a \<and> a \<le> b \<and> b < h \<longrightarrow> P a \<longrightarrow> P b"
        proof (intro allI impI)
          fix a b assume "i \<le> a \<and> a \<le> b \<and> b < h" and pa: "P a"
          then have "i \<le> a \<and> a \<le> b \<and> b < j" using hr by simp
          with "1.prems"(2) pa show "P b" by blast
        qed
        show "i \<le> h" using hr by simp
      qed
      then obtain r where r: "Search_loop f i h = Inr r" "i \<le> r" "r \<le> h"
        "\<forall>h'. i \<le> h' \<and> h' < r \<longrightarrow> \<not> P h'" "\<forall>h'. r \<le> h' \<and> h' < h \<longrightarrow> P h'"
        by blast
      have high: "P h'" if "r \<le> h'" "h' < j" for h'
      proof (cases "h' < h")
        case True
        with r(5) that show ?thesis by simp
      next
        case False
        then have "i \<le> h \<and> h \<le> h' \<and> h' < j" using hr that by simp
        with "1.prems"(2) ph show ?thesis by blast
      qed
      have "Search_loop f i j = Inr r"
        using True fh ph r(1)
        by (subst Search_loop.simps) (simp add: Let_def flip: h_def)
      with r hr high show ?thesis by auto
    qed
  qed
qed

lemma length_offsets_from [simp]: "length (offsets_from p recs) = length recs"
  by (induction p recs rule: offsets_from.induct) auto

lemma offsets_from_nth:
  "h < length recs \<Longrightarrow>
   offsets_from p recs ! h = int (p + length (records_bytes (take h recs)))"
proof (induction p recs arbitrary: h rule: offsets_from.induct)
  case (1 p)
  then show ?case by simp
next
  case (2 p k es recs)
  then show ?case
    by (cases h) (simp_all add: records_bytes_Cons records_bytes_def add.assoc)
qed

lemma record_split:
  assumes "h < length recs" and "recs ! h = (k, es)"
  shows "records_bytes recs
    = records_bytes (take h recs) @ key_record k es @ records_bytes (drop (Suc h) recs)"
proof -
  have "recs = take h recs @ (k, es) # drop (Suc h) recs"
    using assms by (metis id_take_nth_drop)
  then have "records_bytes recs
      = records_bytes (take h recs @ (k, es) # drop (Suc h) recs)" by simp
  then show ?thesis
    by (simp only: records_bytes_append records_bytes_Cons)
qed

lemma key_at:
  assumes "length (pre @ key_record k es @ rest) < 2147483648"
    and "length k < 65536" and "length es < 65536"
  defines "b \<equiv> pre @ key_record k es @ rest" and "off \<equiv> int (length pre)"
  shows "bindE (subslice b off (int32 (off + 2))) btou16 = Inr (of_nat (length k))"
    and "subslice b (int32 (off + 2))
           (int32 (int32 (off + 2) + uint (of_nat (length k) :: 16 word))) = Inr k"
    and "bindE (subslice_from b off) readKey = Inr (2 + length k, k)"
    and "bindE (subslice_from b (int32 (off + int32 (2 + int (length k))))) readEntries
           = Inr (2 + 28 * length es, map wire_entry es)"
proof -
  have lb: "length b = length pre + (4 + length k + 28 * length es) + length rest"
    by (simp add: b_def length_key_record)
  have small: "length b < 2147483648" using assms(1) by (simp add: b_def)
  have c1: "int32 (off + 2) = off + 2"
    using small lb by (intro int32_id) (simp_all add: off_def)
  have c2: "int32 (off + 2 + int (length k)) = off + 2 + int (length k)"
    using small lb by (intro int32_id) (simp_all add: off_def)
  have c3: "int32 (2 + int (length k)) = 2 + int (length k)"
    using assms(2) by (intro int32_id) simp_all
  have c4: "int32 (off + (2 + int (length k)))
      = int (length (pre @ u16tob (of_nat (length k)) @ k))"
    using small lb by (subst int32_id) (simp_all add: off_def)
  have b1: "b = pre @ u16tob (of_nat (length k)) @ (k @ u16tob (of_nat (length es)) @
      concat (map marshalEntry es) @ rest)"
    by (simp add: b_def key_record_def)
  have b2: "b = (pre @ u16tob (of_nat (length k))) @ k @ (u16tob (of_nat (length es)) @
      concat (map marshalEntry es) @ rest)"
    by (simp add: b_def key_record_def)
  have b3: "b = pre @ (u16tob (of_nat (length k)) @ k @ (u16tob (of_nat (length es)) @
      concat (map marshalEntry es) @ rest))"
    by (simp add: b_def key_record_def)
  have b4: "b = (pre @ u16tob (of_nat (length k)) @ k) @ (u16tob (of_nat (length es)) @
      concat (map marshalEntry es) @ rest)"
    by (simp add: b_def key_record_def)
  have "subslice (pre @ u16tob (of_nat (length k)) @ (k @ u16tob (of_nat (length es)) @
      concat (map marshalEntry es) @ rest)) off (off + 2) = Inr (u16tob (of_nat (length k)))"
    by (rule subslice_at) (simp_all add: off_def)
  then show "bindE (subslice b off (int32 (off + 2))) btou16 = Inr (of_nat (length k))"
    unfolding c1 b1 by (simp only: bindE_Inr btou16_u16tob')
  have "subslice ((pre @ u16tob (of_nat (length k))) @ k @ (u16tob (of_nat (length es)) @
      concat (map marshalEntry es) @ rest)) (off + 2) (off + 2 + int (length k)) = Inr k"
    by (rule subslice_at) (simp_all add: off_def)
  then show "subslice b (int32 (off + 2))
      (int32 (int32 (off + 2) + uint (of_nat (length k) :: 16 word))) = Inr k"
    unfolding c1 uint_of_nat16 [OF assms(2)] c2 b2 .
  show "bindE (subslice_from b off) readKey = Inr (2 + length k, k)"
    unfolding b3 off_def
    by (simp only: subslice_from_append [OF refl] bindE_Inr readKey_marshal [OF assms(2)])
  show "bindE (subslice_from b (int32 (off + int32 (2 + int (length k))))) readEntries
      = Inr (2 + 28 * length es, map wire_entry es)"
    unfolding c3 c4 b4
    by (simp only: subslice_from_append [OF refl] bindE_Inr readEntries_marshal [OF assms(3)])
qed

lemma wf_index_nth:
  assumes "wf_index recs" and "h < length recs" and "recs ! h = (k, es)"
  shows "length k < 65536" and "length es < 65536"
proof -
  have "(k, es) \<in> set recs" using assms(2,3) by (metis nth_mem)
  with assms(1) show "length k < 65536" and "length es < 65536"
    by (auto simp: wf_index_def)
qed

lemma probe_records:
  assumes "wf_index recs" and "h < length recs"
  shows "probe \<lparr>idx_b = records_bytes recs, idx_offsets = offsets_from 0 recs\<rparr> key h
    = Inr (key \<le> fst (recs ! h))"
proof -
  obtain k es where r: "recs ! h = (k, es)" by (cases "recs ! h")
  let ?pre = "records_bytes (take h recs)" and ?rest = "records_bytes (drop (Suc h) recs)"
  have b: "records_bytes recs = ?pre @ key_record k es @ ?rest"
    using record_split [OF assms(2) r] .
  have small: "length (?pre @ key_record k es @ ?rest) < 2147483648"
    using assms(1) by (simp add: wf_index_def flip: b)
  have off: "offsets_from 0 recs ! h = int (length ?pre)"
    using offsets_from_nth [OF assms(2), of 0] by simp
  note ka = key_at [OF small wf_index_nth [OF assms r], folded b]
  show ?thesis
    using assms(2)
    by (simp add: probe_def Let_def off ka(1) ka(2) r) (auto simp: le_less)
qed

lemma strict_sorted_keys_nth:
  fixes recs :: "(key \<times> indexEntries) list"
  assumes "sorted_wrt (<) (map fst recs)" and "a \<le> b" and "b < length recs"
  shows "fst (recs ! a) \<le> fst (recs ! b)"
proof -
  have "sorted (map fst recs)" using assms(1) by (simp add: strict_sorted_iff)
  then have "map fst recs ! a \<le> map fst recs ! b"
    using assms(2,3) by (intro sorted_nth_mono) simp_all
  with assms(2,3) show ?thesis by simp
qed

lemma Entries_present:
  assumes "distinct (map fst recs)" and "(k, es) \<in> set recs"
  shows "Entries recs k = es"
  using assms by (simp add: Entries_def)

lemma indirect_Entries_records:
  assumes "wf_index recs"
  shows "indirectIndex_Entries \<lparr>idx_b = records_bytes recs, idx_offsets = offsets_from 0 recs\<rparr> key
    = Inr (map wire_entry (Entries recs key))"
proof -
  let ?ind = "\<lparr>idx_b = records_bytes recs, idx_offsets = offsets_from 0 recs\<rparr>"
  let ?P = "\<lambda>h. key \<le> fst (recs ! h)"
  have st: "sorted_wrt (<) (map fst recs)" using assms by (simp add: wf_index_def)
  then have dist: "distinct (map fst recs)" by (simp add: strict_sorted_iff)
  have f: "\<forall>h. 0 \<le> h \<and> h < length recs \<longrightarrow> probe ?ind key h = Inr (?P h)"
    using probe_records [OF assms] by simp
  have mono: "\<forall>a b. 0 \<le> a \<and> a \<le> b \<and> b < length recs \<longrightarrow> ?P a \<longrightarrow> ?P b"
    using strict_sorted_keys_nth [OF st] by (meson order_trans)
  from Search_loop_correct [OF f mono] obtain r where
    s: "Search (length recs) (probe ?ind key) = Inr r" and rn: "r \<le> length recs"
    and lo: "\<And>h. h < r \<Longrightarrow> \<not> ?P h" and hi: "\<And>h. r \<le> h \<Longrightarrow> h < length recs \<Longrightarrow> ?P h"
    unfolding Search_def by auto
  have absent: "Entries recs key = []" if "\<And>h. h < length recs \<Longrightarrow> fst (recs ! h) \<noteq> key"
  proof (rule Entries_absent)
    show "key \<notin> fst ` set recs"
    proof
      assume "key \<in> fst ` set recs"
      then obtain h where "h < length recs" "fst (recs ! h) = key"
        by (auto simp: in_set_conv_nth)
      with that show False by blast
    qed
  qed
  show ?thesis
  proof (cases "r < length recs")
    case False
    with rn have "r = length recs" by simp
    with lo have "fst (recs ! h) \<noteq> key" if "h < length recs" for h
      using that by auto
    from absent [OF this] False show ?thesis
      by (simp add: indirectIndex_Entries_def s)
  next
    case True
    obtain k es where r: "recs ! r = (k, es)" by (cases "recs ! r")
    let ?pre = "records_bytes (take r recs)" and ?rest = "records_bytes (drop (Suc r) recs)"
    have b: "records_bytes recs = ?pre @ key_record k es @ ?rest"
      using record_split [OF True r] .
    have small: "length (?pre @ key_record k es @ ?rest) < 2147483648"
      using assms(1) by (simp add: wf_index_def flip: b)
    have off: "offsets_from 0 recs ! r = int (length ?pre)"
      using offsets_from_nth [OF True, of 0] by simp
    note ka = key_at [OF small wf_index_nth [OF assms True r], folded b]
    have kk: "key \<le> k" using hi [of r] True r by simp
    show ?thesis
    proof (cases "k = key")
      case eq: True
      have mem: "(key, es) \<in> set recs" using True r eq by (metis nth_mem)
      note ka' = ka [unfolded eq]
      from Entries_present [OF dist mem] show ?thesis
        using True
        by (simp add: indirectIndex_Entries_def s Let_def off ka'(3) ka'(4))
    next
      case ne: False
      have "fst (recs ! h) \<noteq> key" if "h < length recs" for h
      proof (cases "h < r")
        case True
        with lo show ?thesis by auto
      next
        case False
        then have "fst (recs ! r) \<le> fst (recs ! h)"
          using strict_sorted_keys_nth [OF st _ that, of r] by simp
        with r kk ne show ?thesis by auto
      qed
      from absent [OF this] show ?thesis
        using True ne
        by (simp add: indirectIndex_Entries_def s Let_def off ka(3))
    qed
  qed
qed

text \<open>
  C2: for every well-formed serialized index, decoding it into a direct index and
  wrapping it as an indirect index both succeed, and for every key the two indexes
  return the same list of entries (so the same number, order and fields); for a key
  that the serialized index does not hold, both return the empty list.
\<close>

theorem direct_indirect_agree:
  assumes "wf_index recs"
  shows "\<exists>d ind. directIndex_UnmarshalBinary NewDirectIndex (records_bytes recs) = Inr d \<and>
    indirectIndex_UnmarshalBinary NewIndirectIndex (records_bytes recs) = Inr ind \<and>
    (\<forall>k. indirectIndex_Entries ind k = Inr (Entries d k)) \<and>
    (\<forall>k. k \<notin> fst ` set recs \<longrightarrow> Entries d k = [])"
proof -
  have bnd: "\<forall>(k, es) \<in> set recs. length k < 65536 \<and> length es < 65536"
    using assms by (simp add: wf_index_def)
  have small: "length ([] @ records_bytes recs) < 2147483648"
    using assms by (simp add: wf_index_def)
  have dist: "distinct (map fst recs)"
    using assms by (simp add: wf_index_def strict_sorted_iff)
  have d: "directIndex_UnmarshalBinary NewDirectIndex (records_bytes recs)
      = Inr (decoded [] recs)"
    using unmarshalFrom_records [OF bnd, of "[]" "[]"]
    by (simp add: directIndex_UnmarshalBinary_def NewDirectIndex_def)
  have i: "indirectIndex_UnmarshalBinary NewIndirectIndex (records_bytes recs)
      = Inr \<lparr>idx_b = records_bytes recs, idx_offsets = offsets_from 0 recs\<rparr>"
    using indirect_scan_records [OF bnd small, of "[]"]
    by (simp add: indirectIndex_UnmarshalBinary_def NewIndirectIndex_def)
  have e: "indirectIndex_Entries \<lparr>idx_b = records_bytes recs, idx_offsets = offsets_from 0 recs\<rparr> k
      = Inr (Entries (decoded [] recs) k)" for k
    by (simp add: indirect_Entries_records [OF assms] decoded_Entries_distinct [OF dist])
  have a: "Entries (decoded [] recs) k = []" if "k \<notin> fst ` set recs" for k
    using that by (simp add: decoded_Entries_distinct [OF dist] Entries_absent)
  from d i e a show ?thesis by blast
qed

lemma wf_index_ex: "wf_index [(ex_key, [ex_entry])]"
  by (simp add: wf_index_def ex_key_def records_bytes_def length_key_record)

text \<open>An instance: the index of the one key \<open>cpu\<close>, asked for \<open>cpu\<close> and for \<open>mem\<close>.\<close>

theorem direct_indirect_agree_witness:
  "\<exists>d ind. directIndex_UnmarshalBinary NewDirectIndex (records_bytes [(ex_key, [ex_entry])]) = Inr d \<and>
    indirectIndex_UnmarshalBinary NewIndirectIndex (records_bytes [(ex_key, [ex_entry])]) = Inr ind \<and>
    indirectIndex_Entries ind ex_key = Inr (Entries d ex_key) \<and>
    indirectIndex_Entries ind [109, 101, 109] = Inr (Entries d [109, 101, 109]) \<and>
    Entries d [109, 101, 109] = []"
proof -
  from direct_indirect_agree [OF wf_index_ex] obtain d ind where
    "directIndex_UnmarshalBinary NewDirectIndex (records_bytes [(ex_key, [ex_entry])]) = Inr d"
    "indirectIndex_UnmarshalBinary NewIndirectIndex (records_bytes [(ex_key, [ex_entry])]) = Inr ind"
    "\<And>k. indirectIndex_Entries ind k = Inr (Entries d k)"
    "\<And>k. k \<notin> fst ` set [(ex_key, [ex_entry])] \<Longrightarrow> Entries d k = []"
    by blast
  moreover have "[109, 101, 109] \<notin> fst ` set [(ex_key, [ex_entry])]"
    by (simp add: ex_key_def)
  ultimately show ?thesis by blast
qed

subsection \<open>Writing a file and reading it back\<close>

lemma blocks_bytes_Cons: "blocks_bytes x ((k, vs) # ws) = block_bytes x vs @ blocks_bytes x ws"
  by (simp add: blocks_bytes_def)

lemma Write_ok:
  assumes "Values_Encode x vs = Inr block" and "sink_ok (tw_w t)"
  shows "tsmWriter_Write x t k vs =
    (None, t\<lparr>tw_w := (tw_w t)\<lparr>sink_data := sink_data (tw_w t) @ block_bytes x vs\<rparr>,
             tw_index := Add (tw_index t) k (Value_Time x (hd vs)) (Value_Time x (last vs))
                           (tw_n t) (of_nat (length (block_bytes x vs))),
             tw_n := tw_n t + of_nat (length (block_bytes x vs))\<rparr>)"
proof -
  from assms(1) have "vs \<noteq> []" by (auto simp: Values_Encode_def)
  then obtain v vs' where v: "vs = v # vs'" by (cases vs) auto
  have "block_bytes x vs = u32tob (ChecksumIEEE x block) @ block"
    by (simp add: block_bytes_def assms(1))
  then show ?thesis
    using assms by (simp add: tsmWriter_Write_def sink_Write_def) (simp add: v)
qed

lemma Entries_Add:
  "Entries (Add d k a b c e) k' =
     Entries d k' @ (if k = k' then [\<lparr>MinTime = a, MaxTime = b, Offset = c, Size = e\<rparr>] else [])"
  by (simp add: Add_def Entries_update)

lemma dom_Add: "fst ` set (Add d k a b c e) = insert k (fst ` set d)"
  by (simp add: Add_def dom_update)

lemma distinct_Add: "distinct (map fst d) \<Longrightarrow> distinct (map fst (Add d k a b c e))"
  by (simp add: Add_def distinct_update)

lemma write_all_ok:
  assumes "\<forall>(k, vs) \<in> set ws. \<exists>block. Values_Encode x vs = Inr block"
    and "sink_ok (tw_w t)" and "distinct (map fst (tw_index t))"
  shows "\<exists>t'. write_all x t ws = (None, t') \<and> sink_ok (tw_w t') \<and>
    sink_data (tw_w t') = sink_data (tw_w t) @ blocks_bytes x ws \<and>
    tw_n t' = tw_n t + of_nat (length (blocks_bytes x ws)) \<and>
    distinct (map fst (tw_index t')) \<and>
    fst ` set (tw_index t') = fst ` set (tw_index t) \<union> fst ` set ws \<and>
    (\<forall>k. Entries (tw_index t') k = Entries (tw_index t) k @ written_entries x (tw_n t) ws k)"
  using assms
proof (induction ws arbitrary: t)
  case Nil
  then show ?case by (simp add: blocks_bytes_def)
next
  case (Cons w ws)
  obtain k vs where w: "w = (k, vs)" by (cases w)
  from Cons.prems(1) w obtain block where enc: "Values_Encode x vs = Inr block" by auto
  define t1 where "t1 = t\<lparr>tw_w := (tw_w t)\<lparr>sink_data := sink_data (tw_w t) @ block_bytes x vs\<rparr>,
             tw_index := Add (tw_index t) k (Value_Time x (hd vs)) (Value_Time x (last vs))
                           (tw_n t) (of_nat (length (block_bytes x vs))),
             tw_n := tw_n t + of_nat (length (block_bytes x vs))\<rparr>"
  have w1: "tsmWriter_Write x t k vs = (None, t1)"
    unfolding t1_def by (rule Write_ok [OF enc Cons.prems(2)])
  have p1: "\<forall>(k, vs) \<in> set ws. \<exists>block. Values_Encode x vs = Inr block"
    using Cons.prems(1) by simp
  have p2: "sink_ok (tw_w t1)" using Cons.prems(2) by (simp add: t1_def)
  have p3: "distinct (map fst (tw_index t1))"
    using Cons.prems(3) by (simp add: t1_def distinct_Add)
  from Cons.IH [OF p1 p2 p3] obtain t' where
    t': "write_all x t1 ws = (None, t')" "sink_ok (tw_w t')"
    "sink_data (tw_w t') = sink_data (tw_w t1) @ blocks_bytes x ws"
    "tw_n t' = tw_n t1 + of_nat (length (blocks_bytes x ws))"
    "distinct (map fst (tw_index t'))"
    "fst ` set (tw_index t') = fst ` set (tw_index t1) \<union> fst ` set ws"
    "\<And>k'. Entries (tw_index t') k' = Entries (tw_index t1) k' @ written_entries x (tw_n t1) ws k'"
    by blast
  have "write_all x t (w # ws) = (None, t')"
    by (simp add: w w1 t'(1))
  moreover have "sink_data (tw_w t') = sink_data (tw_w t) @ blocks_bytes x (w # ws)"
    by (simp add: t'(3) t1_def w blocks_bytes_Cons)
  moreover have "tw_n t' = tw_n t + of_nat (length (blocks_bytes x (w # ws)))"
    by (simp add: t'(4) t1_def w blocks_bytes_Cons)
  moreover have "fst ` set (tw_index t') = fst ` set (tw_index t) \<union> fst ` set (w # ws)"
    by (simp add: t'(6) t1_def w dom_Add)
  moreover have "Entries (tw_index t') k' = Entries (tw_index t) k' @ written_entries x (tw_n t) (w # ws) k'"
    for k'
    by (simp add: t'(7) t1_def w Entries_Add)
  ultimately show ?case using t'(2,5) by blast
qed

lemma written_points_to:
  assumes "\<forall>(k, vs) \<in> set ws. codec_ok x vs"
    and "length pre + length (blocks_bytes x ws) < 9223372036854775808"
  shows "list_all2 (points_to x (pre @ blocks_bytes x ws @ rest))
    (written_entries x (of_nat (length pre)) ws k) (map snd (filter (\<lambda>w. fst w = k) ws))"
  using assms
proof (induction ws arbitrary: pre)
  case Nil
  then show ?case by simp
next
  case (Cons w ws)
  obtain k' vs where w: "w = (k', vs)" by (cases w)
  from Cons.prems(1) w obtain block where enc: "Values_Encode x vs = Inr block"
    and sz: "4 + length block < 4294967296"
    and dec: "\<And>junk. DecodeBlock x (block @ junk) = Inr vs"
    unfolding codec_ok_def by auto
  have bb: "block_bytes x vs = u32tob (ChecksumIEEE x block) @ block"
    by (simp add: block_bytes_def enc)
  let ?file = "pre @ blocks_bytes x (w # ws) @ rest"
  have fl: "?file = pre @ u32tob (ChecksumIEEE x block) @ block @ (blocks_bytes x ws @ rest)"
    by (simp add: w blocks_bytes_Cons bb)
  have lp: "length pre < 9223372036854775808" using Cons.prems(2) by simp
  have pt: "points_to x ?file
      \<lparr>MinTime = Value_Time x (hd vs), MaxTime = Value_Time x (last vs),
       Offset = of_nat (length pre), Size = of_nat (length (block_bytes x vs))\<rparr> vs"
    unfolding points_to_def
  proof (intro exI conjI allI)
    show "?file = pre @ u32tob (ChecksumIEEE x block) @ block @ (blocks_bytes x ws @ rest)"
      by fact
    show "length (u32tob (ChecksumIEEE x block)) = 4" by simp
    show "sint (Offset \<lparr>MinTime = Value_Time x (hd vs), MaxTime = Value_Time x (last vs),
        Offset = of_nat (length pre), Size = of_nat (length (block_bytes x vs))\<rparr>)
        = int (length pre)"
      using lp by (simp add: sint_of_nat64)
    show "unat (Size \<lparr>MinTime = Value_Time x (hd vs), MaxTime = Value_Time x (last vs),
        Offset = of_nat (length pre) :: 64 word,
        Size = of_nat (length (block_bytes x vs))\<rparr>) = 4 + length block"
    proof -
      have "length (block_bytes x vs) < 2 ^ LENGTH(32)" using sz by (simp add: bb)
      from of_nat_inverse [OF refl this] show ?thesis by (simp add: bb)
    qed
    show "DecodeBlock x (block @ junk) = Inr vs" for junk by (rule dec)
  qed
  have p1: "\<forall>(k, vs) \<in> set ws. codec_ok x vs" using Cons.prems(1) by simp
  have p2: "length (pre @ block_bytes x vs) + length (blocks_bytes x ws) < 9223372036854775808"
    using Cons.prems(2) by (simp add: w blocks_bytes_Cons)
  have e: "(pre @ block_bytes x vs) @ blocks_bytes x ws @ rest = ?file"
    by (simp add: w blocks_bytes_Cons)
  have ih: "list_all2 (points_to x ?file)
      (written_entries x (of_nat (length pre) + of_nat (length (block_bytes x vs))) ws k)
      (map snd (filter (\<lambda>w. fst w = k) ws))"
    using Cons.IH [OF p1 p2] unfolding e by simp
  show ?case
    using pt ih by (auto simp: w)
qed

lemma written_entries_MinTime:
  "map MinTime (written_entries x n ws k)
     = map (\<lambda>w. Value_Time x (hd (snd w))) (filter (\<lambda>w. fst w = k) ws)"
  by (induction x n ws k rule: written_entries.induct) auto

lemma length_written_entries: "length (written_entries x n ws k) \<le> length ws"
  by (induction x n ws k rule: written_entries.induct) auto

lemma written_entries_times:
  "e \<in> set (written_entries x n ws k) \<Longrightarrow>
   \<exists>(k', vs) \<in> set ws. MinTime e = Value_Time x (hd vs) \<and> MaxTime e = Value_Time x (last vs)"
  by (induction x n ws k rule: written_entries.induct) (auto split: if_splits)

lemma init_file_index:
  assumes "length pre < 9223372036854775808"
    and "directIndex_UnmarshalBinary NewDirectIndex ib = Inr d"
  shows "tsmReader_init \<lparr>src_data = pre @ ib @ u64tob (of_nat (length pre)), src_pos = p\<rparr>
    = Inr \<lparr>tr_r = \<lparr>src_data = pre @ ib @ u64tob (of_nat (length pre)),
                    src_pos = int (length pre + length ib)\<rparr>,
           tr_indexStart = int (length pre),
           tr_indexEnd = int (length pre + length ib),
           tr_index = d\<rparr>"
proof -
  let ?file = "pre @ ib @ u64tob (of_nat (length pre))"
  have l: "8 \<le> length ?file" by simp
  have f: "drop (length ?file - 8) ?file = u64tob (of_nat (length pre))" by simp
  have i: "sint (word_of_nat (be_decode (u64tob (of_nat (length pre)))) :: 64 word)
      = int (length pre)"
    using assms(1) by (simp add: be_decode_u64tob sint_of_nat64)
  show ?thesis
    by (subst init_char [OF l]) (simp only: f i Let_def, simp add: assms(2))
qed

lemma writes_fit_index_ok:
  assumes "writes_fit x ws" and "distinct (map fst d)"
    and "fst ` set d = fst ` set ws"
    and "\<And>k. Entries d k = written_entries x n ws k"
  shows "index_ok d"
  unfolding index_ok_def
proof (intro ballI, clarify, intro conjI ballI)
  fix k es
  assume m: "(k, es) \<in> set d"
  then have "k \<in> fst ` set ws" using assms(3) by force
  with assms(1) show "length k < 65536" by (auto simp: writes_fit_def)
  have es: "es = written_entries x n ws k"
    using Entries_present [OF assms(2) m] assms(4) by simp
  have "length es \<le> length ws" unfolding es by (rule length_written_entries)
  with assms(1) show "length es < 65536" by (simp add: writes_fit_def)
  fix e
  assume "e \<in> set es"
  then obtain k' vs where "(k', vs) \<in> set ws" "MinTime e = Value_Time x (hd vs)"
    "MaxTime e = Value_Time x (last vs)"
    unfolding es by (auto dest!: written_entries_times)
  with assms(1) show "int64_time (MinTime e)" and "int64_time (MaxTime e)"
    by (auto simp: writes_fit_def)
qed

lemma write_close_open:
  assumes "go_sort srt" and "writes_fit x ws"
  shows "\<exists>fbytes.
    (\<forall>k. list_all2 (points_to x fbytes) (written_entries x 5 ws k)
            (map snd (filter (\<lambda>w. fst w = k) ws))) \<and>
    (\<forall>k vss. list_all2 (points_to x fbytes) (srt (written_entries x 5 ws k)) vss \<longrightarrow>
            write_then_read_all srt x ws k = Inr (concat vss))"
proof -
  let ?hdr = "[22, 209, 22, 209, 1] :: byte list"
  have enc: "\<forall>(k, vs) \<in> set ws. \<exists>block. Values_Encode x vs = Inr block"
    using assms(2) by (auto simp: writes_fit_def codec_ok_def)
  have cok: "\<forall>(k, vs) \<in> set ws. codec_ok x vs"
    using assms(2) by (auto simp: writes_fit_def)
  have "sink_ok (tw_w ex_writer)" "distinct (map fst (tw_index ex_writer))"
    by (simp_all add: ex_writer_def)
  from write_all_ok [OF enc this] obtain t1 where
    t1: "write_all x ex_writer ws = (None, t1)" "sink_ok (tw_w t1)"
    "sink_data (tw_w t1) = ?hdr @ blocks_bytes x ws"
    "tw_n t1 = 5 + of_nat (length (blocks_bytes x ws))"
    "distinct (map fst (tw_index t1))"
    "fst ` set (tw_index t1) = fst ` set ws"
    "\<And>k. Entries (tw_index t1) k = written_entries x 5 ws k"
    by (auto simp: ex_writer_def Entries_def)
  define ib where "ib = fst (MarshalBinary srt (tw_index t1))"
  define pre where "pre = ?hdr @ blocks_bytes x ws"
  define fbytes where "fbytes = pre @ ib @ u64tob (of_nat (length pre))"
  define t2 where "t2 = t1\<lparr>tw_w := (tw_w t1)\<lparr>sink_data := sink_data (tw_w t1) @
              fst (MarshalBinary srt (tw_index t1)) @ u64tob (tw_n t1)\<rparr>,
            tw_index := snd (MarshalBinary srt (tw_index t1))\<rparr>"
  have n1: "tw_n t1 = of_nat (length pre)"
    by (simp add: t1(4) pre_def)
  have c: "tsmWriter_Close srt t1 = (None, t2)"
    using t1(2) by (simp add: Close_unfold t2_def)
  have f2: "sink_data (tw_w t2) = fbytes"
    by (simp add: t2_def t1(3) n1 fbytes_def ib_def pre_def)
  have lp: "length pre < 9223372036854775808"
    using assms(2) by (simp add: writes_fit_def pre_def)
  have iok: "index_ok (tw_index t1)"
    using writes_fit_index_ok [OF assms(2) t1(5) t1(6) t1(7)] .
  from decode_encode [OF assms(1) iok] obtain d' where
    d': "directIndex_UnmarshalBinary NewDirectIndex ib = Inr d'"
    "\<And>k. Entries d' k = srt (Entries (tw_index t1) k)"
    unfolding ib_def by blast
  define r where "r = \<lparr>tr_r = \<lparr>src_data = fbytes, src_pos = int (length pre + length ib)\<rparr>,
           tr_indexStart = int (length pre), tr_indexEnd = int (length pre + length ib),
           tr_index = d'\<rparr>"
  have o: "NewTSMReader \<lparr>src_data = sink_data (tw_w t2), src_pos = 0\<rparr> = Inr r"
    unfolding NewTSMReader_def f2 fbytes_def r_def
    by (rule init_file_index [OF lp d'(1)])
  have run: "write_then_read_all srt x ws k = fst (tsmReader_ReadAll x r k)" for k
    using NewTSMWriter_ex
    by (simp add: write_then_read_all_def ex_sink_def t1(1) c o)
  have pt: "list_all2 (points_to x fbytes) (written_entries x 5 ws k)
      (map snd (filter (\<lambda>w. fst w = k) ws))" for k
  proof -
    have "length ?hdr + length (blocks_bytes x ws) < 9223372036854775808"
      using lp by (simp add: pre_def)
    from written_points_to [OF cok this, of "ib @ u64tob (of_nat (length pre))" k]
    show ?thesis by (simp add: fbytes_def pre_def)
  qed
  have rd: "write_then_read_all srt x ws k = Inr (concat vss)"
    if "list_all2 (points_to x fbytes) (srt (written_entries x 5 ws k)) vss" for k vss
  proof -
    have "list_all2 (points_to x (src_data (tr_r r))) (Entries (tr_index r) k) vss"
      using that by (simp add: r_def d'(2) t1(7))
    from ReadAll_ok [OF this] show ?thesis by (simp add: run)
  qed
  from pt rd show ?thesis by blast
qed

text \<open>
  C1, as the code has it: for every list of writes that fits the format, under a codec
  that decodes each block it encoded whatever follows the block, and with the first
  times of the blocks of each key strictly ascending in write order, writing the list
  to a new writer over an empty buffer, closing it, opening a reader over the bytes and
  calling \<open>ReadAll\<close> for a key returns the values written under that key, block after
  block in write order.
\<close>

theorem write_read_all_roundtrip:
  assumes "go_sort srt" and "writes_fit x ws" and "ascending_per_key x ws"
  shows "write_then_read_all srt x ws k = Inr (concat (map snd (filter (\<lambda>w. fst w = k) ws)))"
proof -
  from write_close_open [OF assms(1,2)] obtain fbytes where
    pt: "\<And>k. list_all2 (points_to x fbytes) (written_entries x 5 ws k)
            (map snd (filter (\<lambda>w. fst w = k) ws))"
    and rd: "\<And>k vss. list_all2 (points_to x fbytes) (srt (written_entries x 5 ws k)) vss \<Longrightarrow>
            write_then_read_all srt x ws k = Inr (concat vss)"
    by blast
  have "map Less_key (written_entries x 5 ws k) = map MinTime (written_entries x 5 ws k)"
  proof (intro map_cong refl Less_key_int64)
    fix e assume "e \<in> set (written_entries x 5 ws k)"
    then obtain k' vs where "(k', vs) \<in> set ws" "MinTime e = Value_Time x (hd vs)"
      by (auto dest!: written_entries_times)
    with assms(2) show "int64_time (MinTime e)" by (auto simp: writes_fit_def)
  qed
  then have "sorted_wrt (<) (map Less_key (written_entries x 5 ws k))"
    using assms(3) by (simp add: written_entries_MinTime ascending_per_key_def)
  from go_sort_strict_id [OF assms(1) this] pt [of k] rd [of k] show ?thesis by simp
qed

lemma ex_codec_ok:
  assumes "int64_time t"
  shows "codec_ok (ex_extern crc) [Int64Value t v]"
  unfolding codec_ok_def
proof (intro exI conjI allI)
  show "Values_Encode (ex_extern crc) [Int64Value t v]
      = Inr (u64tob (UnixNano t) @ [1] @ u64tob v)"
    by (rule ex_encode_block)
  show "4 + length (u64tob (UnixNano t) @ [1] @ u64tob v) < 4294967296" by simp
  show "DecodeBlock (ex_extern crc) ((u64tob (UnixNano t) @ [1] @ u64tob v) @ junk)
      = Inr [Int64Value t v]" for junk
    using ex_decode_block [of crc t v junk] by (simp only: time_Unix_UnixNano [OF assms])
qed

lemma length_ex_block_bytes: "length (block_bytes (ex_extern crc) [Int64Value t v]) = 21"
  by (simp add: block_bytes_def ex_encode_block)

lemma writes_fit_ex: "writes_fit (ex_extern crc) ex_writes"
  by (simp add: writes_fit_def ex_writes_def ex_key_def ex_codec_ok int64_time_def
      blocks_bytes_def length_ex_block_bytes)

lemma writes_fit_ex_late_first: "writes_fit (ex_extern crc) ex_writes_late_first"
  by (simp add: writes_fit_def ex_writes_late_first_def ex_key_def ex_codec_ok int64_time_def
      blocks_bytes_def length_ex_block_bytes)

lemma ascending_ex: "ascending_per_key (ex_extern crc) ex_writes"
  by (simp add: ascending_per_key_def ex_writes_def)

text \<open>An instance: the two writes in ascending order of time.\<close>

theorem write_read_all_roundtrip_witness:
  "write_then_read_all (sort_key Less_key) (ex_extern (\<lambda>b. 0)) ex_writes ex_key
     = Inr [Int64Value 0 1, Int64Value 1 2]"
  using write_read_all_roundtrip [OF go_sort_sort_key writes_fit_ex ascending_ex, of "\<lambda>b. 0" ex_key]
  by (simp add: ex_writes_def)

text \<open>
  C1 as stated fails: the index is sorted by time when the writer closes, so with the
  later block written first \<open>ReadAll\<close> returns the value of time 0 before the value
  of time 1, and the concatenation in write order is the other way round.
\<close>

theorem read_all_not_write_order:
  "write_then_read_all (sort_key Less_key) (ex_extern (\<lambda>b. 0)) ex_writes_late_first ex_key
     = Inr [Int64Value 0 1, Int64Value 1 2] \<and>
   concat (map snd (filter (\<lambda>w. fst w = ex_key) ex_writes_late_first))
     = [Int64Value 1 2, Int64Value 0 1]"
proof -
  let ?x = "ex_extern (\<lambda>b. 0)"
  let ?e1 = "\<lparr>MinTime = 1, MaxTime = 1, Offset = 5, Size = 21\<rparr>"
  let ?e2 = "\<lparr>MinTime = 0, MaxTime = 0, Offset = 26, Size = 21\<rparr>"
  from write_close_open [OF go_sort_sort_key writes_fit_ex_late_first, of "\<lambda>b. 0"]
  obtain fbytes where
    pt: "\<And>k. list_all2 (points_to ?x fbytes) (written_entries ?x 5 ex_writes_late_first k)
            (map snd (filter (\<lambda>w. fst w = k) ex_writes_late_first))"
    and rd: "\<And>k vss. list_all2 (points_to ?x fbytes)
              (sort_key Less_key (written_entries ?x 5 ex_writes_late_first k)) vss \<Longrightarrow>
            write_then_read_all (sort_key Less_key) ?x ex_writes_late_first k = Inr (concat vss)"
    by blast
  have we: "written_entries ?x 5 ex_writes_late_first ex_key = [?e1, ?e2]"
    by (simp add: ex_writes_late_first_def length_ex_block_bytes)
  have p: "points_to ?x fbytes ?e1 [Int64Value 1 2]" "points_to ?x fbytes ?e2 [Int64Value 0 1]"
    using pt [of ex_key] unfolding we by (simp_all add: ex_writes_late_first_def)
  have "sort_key Less_key [?e1, ?e2] = [?e2, ?e1]"
    by (simp add: Less_key_def UnixNano_def)
  then have "list_all2 (points_to ?x fbytes)
      (sort_key Less_key (written_entries ?x 5 ex_writes_late_first ex_key))
      [[Int64Value 0 1], [Int64Value 1 2]]"
    using p by (simp add: we)
  from rd [OF this] show ?thesis by (simp add: ex_writes_late_first_def)
qed

end
